theory Spec2Isabelle
  imports Complex_Main "HOL-Library.Word"
begin

section \<open>Data model of \<open>src/esp32.cpp\<close>\<close>

text \<open>
  The firmware is one translation unit: global variables, four functions
  (\<open>connectWiFi\<close>, \<open>getCurrentTimestamp\<close>, \<open>readSensors\<close>,
  \<open>sendDataToBackend\<close>) and the Arduino entry points \<open>setup\<close> and \<open>loop\<close>.
  The target is the ESP32, so \<open>unsigned long\<close> and \<open>int\<close> are 32 bits wide.
\<close>

type_synonym u32 = "32 word"
type_synonym i32 = "32 word" \<comment> \<open>\<open>int32_t\<close>, read through \<open>sint\<close>\<close>
type_synonym i8 = "8 word" \<comment> \<open>\<open>int8_t\<close>, used as a truth value: non-zero is true\<close>

text \<open>The global variables (lines 32--45). The two buffers are arrays of \<open>BUFFER_SIZE\<close> cells.\<close>

record globals =
  irBuffer :: "u32 list"
  redBuffer :: "u32 list"
  bufferLength :: i32
  spo2 :: i32
  validSPO2 :: i8
  heartRate :: i32
  validHeartRate :: i8
  lastSensorRead :: u32
  lastDataSend :: u32

definition BUFFER_SIZE :: nat where
  "BUFFER_SIZE = 100"

definition SENSOR_READ_INTERVAL :: u32 where
  "SENSOR_READ_INTERVAL = 2000"

definition DATA_SEND_INTERVAL :: u32 where
  "DATA_SEND_INTERVAL = 1000"

definition DEVICE_ID :: int where
  "DEVICE_ID = 1"

definition wifiCount :: nat where
  "wifiCount = 3"

definition maxRetries :: int where
  "maxRetries = 3"

text \<open>
  The JSON document built by \<open>sendDataToBackend\<close>: an object is a list of members in
  insertion order. The temperature is a floating-point number that the firmware only
  passes through, so its type is a parameter \<open>'t\<close>.
\<close>

datatype 't json = JInt int | JFloat 't | JString string

type_synonym 't doc = "(string \<times> 't json) list"

text \<open>
  Every call that leaves the translation unit is recorded as an event. Two further events
  mark the points where a cycle's gate has passed and its timer is assigned:
  \<open>EvAcquisition\<close> at \<open>lastSensorRead = millis()\<close> and \<open>EvTransmission\<close> at
  \<open>lastDataSend = currentTime\<close>; each carries the value stored in the timer.
  \<open>EvHttpBegin\<close> stands for the three calls that prepare the request
  (\<open>http.begin\<close>, \<open>http.addHeader\<close>, \<open>http.setTimeout\<close>). Console output
  (\<open>Serial\<close>) is not modelled, nor is \<open>http.getString()\<close>, whose result is only
  printed. \<open>setup\<close> is not modelled either: the development starts at the first call of
  \<open>loop\<close>.
\<close>

datatype 't event =
    EvDelay nat
  | EvSensorAvailable bool
  | EvSensorCheck
  | EvSensorGetRed u32
  | EvSensorGetIR u32
  | EvSensorNextSample
  | EvEstimate
  | EvReadObjectTempC 't
  | EvGetLocalTime
  | EvWiFiStatus bool
  | EvWiFiBegin nat
  | EvConfigTime
  | EvHttpBegin
  | EvHttpPOST "'t doc" int
  | EvHttpEnd
  | EvAcquisition u32
  | EvTransmission u32

text \<open>
  The collaborators outside the file (sensor drivers, estimator, WiFi, HTTP client, clock)
  are a parameter: a record of operations on an external state \<open>'e\<close>.
  \<open>wifi_status\<close> is the test \<open>WiFi.status() == WL_CONNECTED\<close>; \<open>wifi_begin i\<close> is
  \<open>WiFi.begin(ssidList[i], passList[i])\<close>; \<open>getLocalTime\<close> gives the text that
  \<open>strftime\<close> produces from the local time, or \<open>None\<close> when the time is not available;
  \<open>estimator\<close> is \<open>maxim_heart_rate_and_oxygen_saturation\<close>, returning its four output
  parameters in the order \<open>(spo2, validSPO2, heartRate, validHeartRate)\<close>;
  \<open>elapse n\<close> is what the outside world does during \<open>n\<close> milliseconds.
\<close>

record ('e, 't) env =
  sensor_available :: "'e \<Rightarrow> bool"
  sensor_check :: "'e \<Rightarrow> 'e"
  sensor_getRed :: "'e \<Rightarrow> u32 \<times> 'e"
  sensor_getIR :: "'e \<Rightarrow> u32 \<times> 'e"
  sensor_nextSample :: "'e \<Rightarrow> 'e"
  estimator :: "u32 list \<Rightarrow> i32 \<Rightarrow> u32 list \<Rightarrow> i32 \<times> i8 \<times> i32 \<times> i8"
  mlx_readObjectTempC :: "'e \<Rightarrow> 't \<times> 'e"
  getLocalTime :: "'e \<Rightarrow> string option"
  wifi_status :: "'e \<Rightarrow> bool"
  wifi_begin :: "nat \<Rightarrow> 'e \<Rightarrow> 'e"
  configTime :: "'e \<Rightarrow> 'e"
  http_POST :: "'t doc \<Rightarrow> 'e \<Rightarrow> int \<times> 'e"
  elapse :: "nat \<Rightarrow> 'e \<Rightarrow> 'e"

text \<open>
  The machine state: the globals, the clock in milliseconds since boot (unbounded; the
  program reads it through \<open>millis\<close>, which wraps at \<open>2^32\<close>), the external state and
  the trace of events, newest first, each with the clock value at which it happened.
  Time passes in \<open>delay\<close> only: every other call is taken to be instantaneous.
\<close>

record ('e, 't) world =
  glob :: globals
  clock :: nat
  ext :: 'e
  trace :: "(nat \<times> 't event) list"

definition millis :: "('e, 't) world \<Rightarrow> u32" where
  "millis w = of_nat (clock w)"

definition emit :: "'t event \<Rightarrow> ('e, 't) world \<Rightarrow> ('e, 't) world" where
  "emit ev w = w\<lparr>trace := (clock w, ev) # trace w\<rparr>"

definition delay :: "('e, 't) env \<Rightarrow> nat \<Rightarrow> ('e, 't) world \<Rightarrow> ('e, 't) world" where
  "delay E n w = (emit (EvDelay n) w)\<lparr>clock := clock w + n, ext := elapse E n (ext w)\<rparr>"

text \<open>A call that changes the external state, and one that also returns a value.\<close>

definition call :: "'t event \<Rightarrow> ('e \<Rightarrow> 'e) \<Rightarrow> ('e, 't) world \<Rightarrow> ('e, 't) world" where
  "call ev f w = (emit ev w)\<lparr>ext := f (ext w)\<rparr>"

definition call_val ::
  "('a \<Rightarrow> 't event) \<Rightarrow> ('e \<Rightarrow> 'a \<times> 'e) \<Rightarrow> ('e, 't) world \<Rightarrow> 'a \<times> ('e, 't) world" where
  "call_val ev f w = (case f (ext w) of (v, e') \<Rightarrow> (v, (emit (ev v) w)\<lparr>ext := e'\<rparr>))"

definition upd_glob :: "(globals \<Rightarrow> globals) \<Rightarrow> ('e, 't) world \<Rightarrow> ('e, 't) world" where
  "upd_glob f w = w\<lparr>glob := f (glob w)\<rparr>"

section \<open>\<open>connectWiFi\<close> (lines 47--76)\<close>

text \<open>
  The inner loop \<open>while (WiFi.status() != WL_CONNECTED && millis() - startAttempt < 10000)
  delay(500)\<close>.
\<close>

function wifi_wait :: "('e, 't) env \<Rightarrow> u32 \<Rightarrow> ('e, 't) world \<Rightarrow> ('e, 't) world" where
  "wifi_wait E startAttempt w =
     (let c = wifi_status E (ext w); w1 = emit (EvWiFiStatus c) w in
      if \<not> c \<and> millis w1 - startAttempt < 10000
      then wifi_wait E startAttempt (delay E 500 w1)
      else w1)"
  by pat_completeness auto

lemma unat_millis_delay:
  assumes "millis w - s < (10000 :: u32)"
  shows "unat (millis (delay E 500 w) - s) = unat (millis w - s) + 500"
proof -
  have small: "unat (millis w - s) < 10000"
    using assms by (simp add: word_less_nat_alt)
  have "millis (delay E 500 w) = millis w + 500"
    by (simp add: millis_def delay_def emit_def)
  then have shift: "millis (delay E 500 w) - s = (millis w - s) + 500"
    by simp
  have "unat ((millis w - s) + 500) = unat (millis w - s) + unat (500 :: u32)"
    using small by (subst unat_add_lem [symmetric]) simp
  then show ?thesis
    unfolding shift by simp
qed

termination wifi_wait
proof (relation "measure (\<lambda>(E, s, w). 10500 - unat (millis w - s))")
  show "wf (measure (\<lambda>(E, s, w). 10500 - unat (millis w - s)))" by simp
next
  fix E :: "('e, 't) env" and startAttempt :: u32 and w :: "('e, 't) world" and c w1
  assume c: "c = wifi_status E (ext w)" and w1: "w1 = emit (EvWiFiStatus c) w"
    and go: "\<not> c \<and> millis w1 - startAttempt < 10000"
  have m: "millis w1 = millis w" by (simp add: w1 millis_def emit_def)
  have lt: "millis w1 - startAttempt < 10000" using go by simp
  have "unat (millis w1 - startAttempt) < 10000"
    using lt by (simp add: word_less_nat_alt)
  with unat_millis_delay [OF lt, of E] m
  show "((E, startAttempt, delay E 500 w1), E, startAttempt, w)
          \<in> measure (\<lambda>(E, s, w). 10500 - unat (millis w - s))"
    by simp
qed

declare wifi_wait.simps [simp del]

text \<open>The outer loop \<open>for (int i = 0; i < wifiCount; i++)\<close>, from index \<open>i\<close> on.\<close>

function connect_from :: "('e, 't) env \<Rightarrow> nat \<Rightarrow> ('e, 't) world \<Rightarrow> ('e, 't) world" where
  "connect_from E i w =
     (if i < wifiCount then
        let w1 = call (EvWiFiBegin i) (wifi_begin E i) w;
            startAttempt = millis w1;
            w2 = wifi_wait E startAttempt w1;
            c = wifi_status E (ext w2);
            w3 = emit (EvWiFiStatus c) w2
        in if c then call EvConfigTime (configTime E) w3
           else connect_from E (Suc i) w3
      else w)"
  by pat_completeness auto

termination connect_from
  by (relation "measure (\<lambda>(E, i, w). wifiCount - i)") auto

declare connect_from.simps [simp del]

definition connectWiFi :: "('e, 't) env \<Rightarrow> ('e, 't) world \<Rightarrow> ('e, 't) world" where
  "connectWiFi E w = connect_from E 0 w"

section \<open>\<open>getCurrentTimestamp\<close> (lines 78--88)\<close>

text \<open>\<open>String(millis())\<close>: the decimal digits of the number.\<close>

definition digit_char :: "nat \<Rightarrow> char" where
  "digit_char d = char_of (48 + d)"

fun dec_string :: "nat \<Rightarrow> string" where
  "dec_string n = (if n < 10 then [digit_char n] else dec_string (n div 10) @ [digit_char (n mod 10)])"

declare dec_string.simps [simp del]

definition getCurrentTimestamp :: "('e, 't) env \<Rightarrow> ('e, 't) world \<Rightarrow> string \<times> ('e, 't) world" where
  "getCurrentTimestamp E w =
     (let w1 = emit EvGetLocalTime w in
      case getLocalTime E (ext w) of
        None \<Rightarrow> (dec_string (unat (millis w1)), w1)
      | Some buffer \<Rightarrow> (buffer, w1))"

section \<open>\<open>readSensors\<close> (lines 90--129)\<close>

text \<open>
  The polling loop of one slot (lines 102--107):
  \<open>while (!particleSensor.available() && attempts < 100) { check(); delay(10); attempts++; }\<close>.
  The availability test is the left operand of \<open>&&\<close>, so it is evaluated on every
  test of the loop condition.
\<close>

function poll :: "('e, 't) env \<Rightarrow> int \<Rightarrow> ('e, 't) world \<Rightarrow> ('e, 't) world" where
  "poll E attempts w =
     (let a = sensor_available E (ext w); w1 = emit (EvSensorAvailable a) w in
      if \<not> a \<and> attempts < 100
      then poll E (attempts + 1) (delay E 10 (call EvSensorCheck (sensor_check E) w1))
      else w1)"
  by pat_completeness auto

termination poll
  by (relation "measure (\<lambda>(E, attempts, w). nat (100 - attempts))") auto

declare poll.simps [simp del]

text \<open>
  The body of the \<open>for\<close> loop for slot \<open>i\<close> (lines 102--117): poll, test availability
  once more, and either give up (\<open>False\<close>: the \<open>return false\<close> of line 111) or store one
  sample of each channel in cell \<open>i\<close>.
\<close>

definition fill_slot :: "('e, 't) env \<Rightarrow> nat \<Rightarrow> ('e, 't) world \<Rightarrow> bool \<times> ('e, 't) world" where
  "fill_slot E i w =
     (let w1 = poll E 0 w;
          a = sensor_available E (ext w1);
          w2 = emit (EvSensorAvailable a) w1
      in if \<not> a then (False, w2)
         else
           let (r, w3) = call_val EvSensorGetRed (sensor_getRed E) w2;
               w4 = upd_glob (\<lambda>g. g\<lparr>redBuffer := (redBuffer g)[i := r]\<rparr>) w3;
               (ir, w5) = call_val EvSensorGetIR (sensor_getIR E) w4;
               w6 = upd_glob (\<lambda>g. g\<lparr>irBuffer := (irBuffer g)[i := ir]\<rparr>) w5;
               w7 = call EvSensorNextSample (sensor_nextSample E) w6
           in (True, delay E 5 w7))"

text \<open>
  The loop \<open>for (int i = 0; i < bufferLength; i++)\<close>, from index \<open>i\<close> on.
  \<open>bufferLength\<close> is assigned \<open>BUFFER_SIZE\<close> just before the loop and nothing in the loop
  writes it, so the bound is the parameter \<open>n\<close>. \<open>False\<close> is the early
  \<open>return false\<close>; \<open>True\<close> is the normal end of the loop.
\<close>

function fill :: "('e, 't) env \<Rightarrow> nat \<Rightarrow> nat \<Rightarrow> ('e, 't) world \<Rightarrow> bool \<times> ('e, 't) world" where
  "fill E n i w =
     (if i < n then
        case fill_slot E i w of
          (False, w') \<Rightarrow> (False, w')
        | (True, w') \<Rightarrow> fill E n (Suc i) w'
      else (True, w))"
  by pat_completeness auto

termination fill
  by (relation "measure (\<lambda>(E, n, i, w). n - i)") auto

declare fill.simps [simp del]

definition readSensors :: "('e, 't) env \<Rightarrow> ('e, 't) world \<Rightarrow> bool \<times> ('e, 't) world" where
  "readSensors E w =
     (if millis w - lastSensorRead (glob w) < SENSOR_READ_INTERVAL then (False, w)
      else
        let w1 = emit (EvAcquisition (millis w)) (upd_glob (\<lambda>g. g\<lparr>lastSensorRead := millis w\<rparr>) w);
            w2 = upd_glob (\<lambda>g. g\<lparr>bufferLength := of_nat BUFFER_SIZE\<rparr>) w1
        in case fill E BUFFER_SIZE 0 w2 of
             (False, w3) \<Rightarrow> (False, w3)
           | (True, w3) \<Rightarrow>
               (case estimator E (irBuffer (glob w3)) (bufferLength (glob w3)) (redBuffer (glob w3)) of
                  (s, vs, h, vh) \<Rightarrow>
                    (True, emit EvEstimate
                       (upd_glob (\<lambda>g. g\<lparr>spo2 := s, validSPO2 := vs,
                                          heartRate := h, validHeartRate := vh\<rparr>) w3))))"

section \<open>\<open>sendDataToBackend\<close> (lines 131--198)\<close>

text \<open>\<open>doc[key] = value\<close> on a JSON object: replace the member, or append it.\<close>

fun doc_set :: "string \<Rightarrow> 't json \<Rightarrow> 't doc \<Rightarrow> 't doc" where
  "doc_set k v [] = [(k, v)]"
| "doc_set k v ((k', v') # d) = (if k' = k then (k, v) # d else (k', v') # doc_set k v d)"

text \<open>
  The payload (lines 144--149). The document stands for its serialisation
  \<open>jsonPayload\<close>, which is what is handed to \<open>http.POST\<close>. The five members are
  taken to fit the 200 bytes reserved by \<open>DynamicJsonDocument doc(200)\<close>.
\<close>

definition build_payload :: "('e, 't) env \<Rightarrow> ('e, 't) world \<Rightarrow> 't doc \<times> ('e, 't) world" where
  "build_payload E w =
     (let g = glob w;
          d1 = doc_set ''device_id'' (JInt DEVICE_ID) [];
          d2 = doc_set ''heart_rate'' (JInt (if validHeartRate g \<noteq> 0 then sint (heartRate g) else 0)) d1;
          d3 = doc_set ''spo2'' (JInt (if validSPO2 g \<noteq> 0 then sint (spo2 g) else 0)) d2;
          (temp, w1) = call_val EvReadObjectTempC (mlx_readObjectTempC E) w;
          d4 = doc_set ''temp_skin'' (JFloat temp) d3;
          (ts, w2) = getCurrentTimestamp E w1;
          d5 = doc_set ''timestamp'' (JString ts) d4
      in (d5, w2))"

text \<open>
  The retry loop (lines 158--195), from the given value of \<open>retryCount\<close> on. The two
  \<open>break\<close>s end the loop with the state reached; the other two branches count the
  attempt, wait two seconds unless it was the last, and go round again.
\<close>

function post_loop :: "('e, 't) env \<Rightarrow> 't doc \<Rightarrow> int \<Rightarrow> ('e, 't) world \<Rightarrow> ('e, 't) world" where
  "post_loop E jsonPayload retryCount w =
     (if retryCount < maxRetries then
        case call_val (EvHttpPOST jsonPayload) (http_POST E jsonPayload) w of
          (httpResponseCode, w1) \<Rightarrow>
            if httpResponseCode > 0 then
              if httpResponseCode = 200 \<or> httpResponseCode = 201 then w1
              else if httpResponseCode = 301 \<or> httpResponseCode = 302 then w1
              else post_loop E jsonPayload (retryCount + 1)
                     (if retryCount + 1 < maxRetries then delay E 2000 w1 else w1)
            else post_loop E jsonPayload (retryCount + 1)
                   (if retryCount + 1 < maxRetries then delay E 2000 w1 else w1)
      else w)"
  by pat_completeness auto

termination post_loop
  by (relation "measure (\<lambda>(E, p, retryCount, w). nat (maxRetries - retryCount))") auto

declare post_loop.simps [simp del]

definition sendDataToBackend :: "('e, 't) env \<Rightarrow> ('e, 't) world \<Rightarrow> ('e, 't) world" where
  "sendDataToBackend E w =
     (let c = wifi_status E (ext w); w0 = emit (EvWiFiStatus c) w in
      if \<not> c then connectWiFi E w0
      else
        let w1 = emit EvHttpBegin w0;
            (jsonPayload, w2) = build_payload E w1;
            w3 = post_loop E jsonPayload 0 w2
        in emit EvHttpEnd w3)"

section \<open>\<open>loop\<close> (lines 251--274)\<close>

text \<open>Lines 255--264: the acquisition, and the temperature read that follows a success.\<close>

definition loop_acquire :: "('e, 't) env \<Rightarrow> ('e, 't) world \<Rightarrow> ('e, 't) world" where
  "loop_acquire E w =
     (case readSensors E w of
        (True, w1) \<Rightarrow> snd (call_val EvReadObjectTempC (mlx_readObjectTempC E) w1)
      | (False, w1) \<Rightarrow> w1)"

text \<open>Lines 267--270: the transmission, gated on the time read at the start of the pass.\<close>

definition loop_transmit :: "('e, 't) env \<Rightarrow> u32 \<Rightarrow> ('e, 't) world \<Rightarrow> ('e, 't) world" where
  "loop_transmit E currentTime w =
     (if currentTime - lastDataSend (glob w) \<ge> DATA_SEND_INTERVAL
      then sendDataToBackend E
             (emit (EvTransmission currentTime) (upd_glob (\<lambda>g. g\<lparr>lastDataSend := currentTime\<rparr>) w))
      else w)"

definition loop :: "('e, 't) env \<Rightarrow> ('e, 't) world \<Rightarrow> ('e, 't) world" where
  "loop E w =
     (let currentTime = millis w;
          w1 = loop_acquire E w;
          w2 = loop_transmit E currentTime w1
      in delay E 100 w2)"

text \<open>The scheduler: \<open>loop\<close> is called again and again; \<open>run E n\<close> is \<open>n\<close> passes.\<close>

fun run :: "('e, 't) env \<Rightarrow> nat \<Rightarrow> ('e, 't) world \<Rightarrow> ('e, 't) world" where
  "run E 0 w = w"
| "run E (Suc n) w = run E n (loop E w)"

text \<open>
  The state at the first pass: the globals are zero-initialised (static storage), \<open>setup\<close>
  ends by assigning \<open>0\<close> to both timers, and no cycle has run yet. The clock \<open>c\<close> and the
  external state \<open>e\<close> are whatever \<open>setup\<close> left.
\<close>

definition zero_globals :: globals where
  "zero_globals =
     \<lparr>irBuffer = replicate BUFFER_SIZE 0, redBuffer = replicate BUFFER_SIZE 0,
      bufferLength = 0, spo2 = 0, validSPO2 = 0, heartRate = 0, validHeartRate = 0,
      lastSensorRead = 0, lastDataSend = 0\<rparr>"

definition boot :: "nat \<Rightarrow> 'e \<Rightarrow> ('e, 't) world" where
  "boot c e = \<lparr>glob = zero_globals, clock = c, ext = e, trace = []\<rparr>"

section \<open>Observations on states and traces\<close>

text \<open>
  The definitions of this section are not part of the firmware: they are the vocabulary in
  which its properties are stated (classes of events, projections of a trace) and a
  family of concrete environments on which the theorems are instantiated.
\<close>

text \<open>
  \<open>steps R P w w'\<close>: the state \<open>w'\<close> comes after \<open>w\<close>, the globals are related by
  \<open>R\<close>, the clock has not gone back, and the trace has grown by events of class \<open>P\<close>.
\<close>

definition steps ::
  "(globals \<Rightarrow> globals \<Rightarrow> bool) \<Rightarrow> ('t event \<Rightarrow> bool) \<Rightarrow> ('e, 't) world \<Rightarrow> ('e, 't) world \<Rightarrow> bool" where
  "steps R P w w' \<longleftrightarrow>
     R (glob w) (glob w') \<and> clock w \<le> clock w' \<and>
     (\<exists>evs. trace w' = evs @ trace w \<and> list_all (\<lambda>x. P (snd x)) evs)"

fun is_poll_ev :: "'t event \<Rightarrow> bool" where
  "is_poll_ev (EvSensorAvailable a) = True"
| "is_poll_ev EvSensorCheck = True"
| "is_poll_ev (EvDelay n) = True"
| "is_poll_ev _ = False"

fun is_sensor_ev :: "'t event \<Rightarrow> bool" where
  "is_sensor_ev (EvSensorAvailable a) = True"
| "is_sensor_ev EvSensorCheck = True"
| "is_sensor_ev (EvDelay n) = True"
| "is_sensor_ev (EvSensorGetRed v) = True"
| "is_sensor_ev (EvSensorGetIR v) = True"
| "is_sensor_ev EvSensorNextSample = True"
| "is_sensor_ev _ = False"

fun is_wifi_ev :: "'t event \<Rightarrow> bool" where
  "is_wifi_ev (EvWiFiStatus c) = True"
| "is_wifi_ev (EvWiFiBegin i) = True"
| "is_wifi_ev EvConfigTime = True"
| "is_wifi_ev (EvDelay n) = True"
| "is_wifi_ev _ = False"

text \<open>Only the two sample buffers differ.\<close>

definition buffers_only :: "globals \<Rightarrow> globals \<Rightarrow> bool" where
  "buffers_only g g' \<longleftrightarrow> g' = g\<lparr>irBuffer := irBuffer g', redBuffer := redBuffer g'\<rparr>"

text \<open>The number of events of a class in the trace of a state.\<close>

definition count_ev :: "('t event \<Rightarrow> bool) \<Rightarrow> ('e, 't) world \<Rightarrow> nat" where
  "count_ev Q w = length (filter (\<lambda>x. Q (snd x)) (trace w))"

fun is_avail :: "'t event \<Rightarrow> bool" where
  "is_avail (EvSensorAvailable a) = True"
| "is_avail _ = False"

fun is_check :: "'t event \<Rightarrow> bool" where
  "is_check EvSensorCheck = True"
| "is_check _ = False"

fun is_sample :: "'t event \<Rightarrow> bool" where
  "is_sample EvSensorNextSample = True"
| "is_sample _ = False"

fun is_retry_ev :: "'t doc \<Rightarrow> 't event \<Rightarrow> bool" where
  "is_retry_ev p (EvHttpPOST d c) = (d = p)"
| "is_retry_ev p (EvDelay n) = (n = 2000)"
| "is_retry_ev p _ = False"

fun is_post :: "'t event \<Rightarrow> bool" where
  "is_post (EvHttpPOST d c) = True"
| "is_post _ = False"

text \<open>The documents handed to \<open>http.POST\<close>, newest first.\<close>

fun posted :: "(nat \<times> 't event) list \<Rightarrow> 't doc list" where
  "posted [] = []"
| "posted ((t, EvHttpPOST d c) # tr) = d # posted tr"
| "posted (x # tr) = posted tr"

text \<open>The events of \<open>w'\<close> that are newer than \<open>w\<close>, newest first.\<close>

definition since :: "('e, 't) world \<Rightarrow> ('e, 't) world \<Rightarrow> (nat \<times> 't event) list" where
  "since w w' = take (length (trace w') - length (trace w)) (trace w')"

text \<open>The documents posted by one call of \<open>sendDataToBackend\<close>.\<close>

definition sent_docs :: "('e, 't) env \<Rightarrow> ('e, 't) world \<Rightarrow> 't doc list" where
  "sent_docs E w = posted (since w (sendDataToBackend E w))"

fun is_tick_ev :: "'t doc \<Rightarrow> 't event \<Rightarrow> bool" where
  "is_tick_ev p (EvHttpPOST d c) = (d = p)"
| "is_tick_ev p (EvDelay n) = True"
| "is_tick_ev p (EvWiFiStatus c) = True"
| "is_tick_ev p (EvWiFiBegin i) = True"
| "is_tick_ev p EvConfigTime = True"
| "is_tick_ev p EvHttpBegin = True"
| "is_tick_ev p EvHttpEnd = True"
| "is_tick_ev p (EvReadObjectTempC t) = True"
| "is_tick_ev p EvGetLocalTime = True"
| "is_tick_ev p _ = False"

text \<open>
  A simple environment: the sensor has a sample ready always or never, the link is up or
  down, every POST is answered by the same code, the temperature reads 36.5 and the
  estimator answers \<open>(spo2, validSPO2, heartRate, validHeartRate) = (98, 1, 72, 1)\<close>.
\<close>

definition sim_env :: "bool \<Rightarrow> bool \<Rightarrow> int \<Rightarrow> (unit, real) env" where
  "sim_env sensor_ok link_up code =
     \<lparr>sensor_available = (\<lambda>e. sensor_ok), sensor_check = (\<lambda>e. e),
      sensor_getRed = (\<lambda>e. (1000, e)), sensor_getIR = (\<lambda>e. (2000, e)),
      sensor_nextSample = (\<lambda>e. e),
      estimator = (\<lambda>ir n red. (98, 1, 72, 1)),
      mlx_readObjectTempC = (\<lambda>e. (36.5, e)),
      getLocalTime = (\<lambda>e. Some ''2025-01-01T00:00:00''),
      wifi_status = (\<lambda>e. link_up), wifi_begin = (\<lambda>i e. e), configTime = (\<lambda>e. e),
      http_POST = (\<lambda>d e. (code, e)),
      elapse = (\<lambda>n e. e)\<rparr>"

text \<open>A state whose current estimate is heart rate 72 and SpO2 98, both valid.\<close>

definition est_world :: "(unit, real) world" where
  "est_world =
     upd_glob (\<lambda>g. g\<lparr>spo2 := 98, validSPO2 := 1, heartRate := 72, validHeartRate := 1\<rparr>)
       (boot 5000 ())"

text \<open>
  The answers of \<open>http.POST\<close> after which the retry loop counts the attempt and goes
  on: a transport error (a code that is not positive) or a status other than 200, 201,
  301 and 302.
\<close>

definition transient :: "int \<Rightarrow> bool" where
  "transient c \<longleftrightarrow> c \<le> 0 \<or> (c \<noteq> 200 \<and> c \<noteq> 201 \<and> c \<noteq> 301 \<and> c \<noteq> 302)"

text \<open>The events of building and sending a record.\<close>

fun is_record_ev :: "'t event \<Rightarrow> bool" where
  "is_record_ev EvHttpBegin = True"
| "is_record_ev (EvReadObjectTempC t) = True"
| "is_record_ev EvGetLocalTime = True"
| "is_record_ev (EvHttpPOST d c) = True"
| "is_record_ev EvHttpEnd = True"
| "is_record_ev _ = False"

fun is_estimate :: "'t event \<Rightarrow> bool" where
  "is_estimate EvEstimate = True"
| "is_estimate _ = False"

text \<open>The state in which \<open>readSensors\<close> starts to fill the buffer (lines 96--98).\<close>

definition acquisition_start :: "('e, 't) world \<Rightarrow> ('e, 't) world" where
  "acquisition_start w =
     upd_glob (\<lambda>g. g\<lparr>bufferLength := of_nat BUFFER_SIZE\<rparr>)
       (emit (EvAcquisition (millis w)) (upd_glob (\<lambda>g. g\<lparr>lastSensorRead := millis w\<rparr>) w))"




text \<open>
  Events of an acquisition after its start: the sensor, the estimator, and the temperature
  read that follows a success.
\<close>

fun is_fill_ev :: "'t event \<Rightarrow> bool" where
  "is_fill_ev EvEstimate = True"
| "is_fill_ev (EvReadObjectTempC t) = True"
| "is_fill_ev e = is_sensor_ev e"

text \<open>The timers and the buffer length are the same; the samples and the estimate may differ.\<close>

definition acquired :: "globals \<Rightarrow> globals \<Rightarrow> bool" where
  "acquired g g' \<longleftrightarrow>
     lastSensorRead g' = lastSensorRead g \<and> lastDataSend g' = lastDataSend g \<and>
     bufferLength g' = bufferLength g"

text \<open>A document that reports no heart rate and no saturation.\<close>

definition reports_zero :: "'t doc \<Rightarrow> bool" where
  "reports_zero d \<longleftrightarrow> map_of d ''heart_rate'' = Some (JInt 0) \<and> map_of d ''spo2'' = Some (JInt 0)"







text \<open>The values returned by \<open>getRed\<close> and by \<open>getIR\<close>, newest first.\<close>

fun red_values :: "(nat \<times> 't event) list \<Rightarrow> u32 list" where
  "red_values [] = []"
| "red_values ((t, EvSensorGetRed v) # tr) = v # red_values tr"
| "red_values (x # tr) = red_values tr"

fun ir_values :: "(nat \<times> 't event) list \<Rightarrow> u32 list" where
  "ir_values [] = []"
| "ir_values ((t, EvSensorGetIR v) # tr) = v # ir_values tr"
| "ir_values (x # tr) = ir_values tr"

text \<open>
  The events of \<open>k\<close> unsuccessful rounds of the polling loop that start at clock \<open>c\<close>,
  newest first: the availability test fails, \<open>check()\<close>, \<open>delay(10)\<close>.
\<close>

fun rounds :: "nat \<Rightarrow> nat \<Rightarrow> (nat \<times> 't event) list" where
  "rounds c 0 = []"
| "rounds c (Suc k) =
     rounds (c + 10) k @ [(c, EvDelay 10), (c, EvSensorCheck), (c, EvSensorAvailable False)]"

section \<open>Basic facts\<close>

subsection \<open>The primitives and the simple environment\<close>

lemma emit_simps [simp]:
  "glob (emit ev w) = glob w" "clock (emit ev w) = clock w" "ext (emit ev w) = ext w"
  "trace (emit ev w) = (clock w, ev) # trace w" "millis (emit ev w) = millis w"
  by (simp_all add: emit_def millis_def)

lemma delay_simps [simp]:
  "glob (delay E n w) = glob w" "clock (delay E n w) = clock w + n"
  "ext (delay E n w) = elapse E n (ext w)"
  "trace (delay E n w) = (clock w, EvDelay n) # trace w"
  by (simp_all add: delay_def)

lemma call_simps [simp]:
  "glob (call ev f w) = glob w" "clock (call ev f w) = clock w" "ext (call ev f w) = f (ext w)"
  "trace (call ev f w) = (clock w, ev) # trace w" "millis (call ev f w) = millis w"
  by (simp_all add: call_def millis_def)

lemma call_val_simps [simp]:
  "fst (call_val ev f w) = fst (f (ext w))"
  "glob (snd (call_val ev f w)) = glob w" "clock (snd (call_val ev f w)) = clock w"
  "ext (snd (call_val ev f w)) = snd (f (ext w))"
  "trace (snd (call_val ev f w)) = (clock w, ev (fst (f (ext w)))) # trace w"
  "millis (snd (call_val ev f w)) = millis w"
  by (simp_all add: call_val_def millis_def split: prod.split)

lemma upd_glob_simps [simp]:
  "glob (upd_glob f w) = f (glob w)" "clock (upd_glob f w) = clock w" "ext (upd_glob f w) = ext w"
  "trace (upd_glob f w) = trace w" "millis (upd_glob f w) = millis w"
  by (simp_all add: upd_glob_def millis_def)

lemma count_ev_simps [simp]:
  "count_ev Q (emit ev w) = (if Q ev then Suc (count_ev Q w) else count_ev Q w)"
  "count_ev Q (delay E n w) = (if Q (EvDelay n) then Suc (count_ev Q w) else count_ev Q w)"
  "count_ev Q (call ev f w) = (if Q ev then Suc (count_ev Q w) else count_ev Q w)"
  "count_ev Q (snd (call_val ev' g w)) =
     (if Q (ev' (fst (g (ext w)))) then Suc (count_ev Q w) else count_ev Q w)"
  "count_ev Q (upd_glob h w) = count_ev Q w"
  by (simp_all add: count_ev_def)

lemma est_world_simps:
  "validHeartRate (glob est_world) \<noteq> 0" "sint (heartRate (glob est_world)) = 72"
  "validSPO2 (glob est_world) \<noteq> 0" "sint (spo2 (glob est_world)) = 98"
  "wifi_status (sim_env True True 200) (ext est_world)"
  "fst (mlx_readObjectTempC (sim_env True True 200) (ext est_world)) = 36.5"
  by (simp_all add: est_world_def sim_env_def)

lemma sim_env_simps [simp]:
  "sensor_available (sim_env s l c) e = s"
  "sensor_check (sim_env s l c) e = ()"
  "sensor_getRed (sim_env s l c) e = (1000, ())"
  "sensor_getIR (sim_env s l c) e = (2000, ())"
  "sensor_nextSample (sim_env s l c) e = ()"
  "estimator (sim_env s l c) ir len red = (98, 1, 72, 1)"
  "mlx_readObjectTempC (sim_env s l c) e = (36.5, ())"
  "getLocalTime (sim_env s l c) e = Some ''2025-01-01T00:00:00''"
  "wifi_status (sim_env s l c) e = l"
  "wifi_begin (sim_env s l c) i e = ()"
  "configTime (sim_env s l c) e = ()"
  "http_POST (sim_env s l c) d e = (c, ())"
  "elapse (sim_env s l c) n e = ()"
  by (simp_all add: sim_env_def)

lemma boot_simps [simp]:
  "glob (boot c e) = zero_globals" "clock (boot c e) = c" "ext (boot c e) = e"
  "trace (boot c e) = []" "count_ev Q (boot c e) = 0"
  by (simp_all add: boot_def count_ev_def)

lemma gate_boot_5000:
  "\<not> millis (boot 5000 e :: ('e, 't) world) - lastSensorRead (glob (boot 5000 e :: ('e, 't) world))
      < SENSOR_READ_INTERVAL"
  by (simp add: millis_def SENSOR_READ_INTERVAL_def zero_globals_def)

subsection \<open>Sequences of steps\<close>

lemma steps_refl: "R (glob w) (glob w) \<Longrightarrow> steps R P w w"
  by (simp add: steps_def)

lemma steps_append:
  assumes "steps R P w w0" and "steps (=) Q w0 w1" and "\<And>e. Q e \<Longrightarrow> P e"
  shows "steps R P w w1"
proof -
  from assms(1) obtain e1 where e1: "trace w0 = e1 @ trace w" "list_all (\<lambda>x. P (snd x)) e1"
    by (auto simp: steps_def)
  from assms(2) obtain e2 where e2: "trace w1 = e2 @ trace w0" "list_all (\<lambda>x. Q (snd x)) e2"
    by (auto simp: steps_def)
  have "list_all (\<lambda>x. P (snd x)) e2"
    using e2(2) assms(3) by (simp add: list_all_iff)
  then have "trace w1 = (e2 @ e1) @ trace w" "list_all (\<lambda>x. P (snd x)) (e2 @ e1)"
    using e1 e2 by simp_all
  moreover have "R (glob w) (glob w1)" "clock w \<le> clock w1"
    using assms(1,2) by (auto simp: steps_def)
  ultimately show ?thesis unfolding steps_def by blast
qed

lemma steps_one:
  assumes "steps R P w w0" and "P ev"
    and "glob w' = glob w0" and "clock w0 \<le> clock w'" and "trace w' = (c, ev) # trace w0"
  shows "steps R P w w'"
proof (rule steps_append [OF assms(1), where Q = "\<lambda>e. e = ev"])
  show "steps (=) (\<lambda>e. e = ev) w0 w'"
    unfolding steps_def using assms(3-5) by (intro conjI exI [of _ "[(c, ev)]"]) simp_all
qed (simp add: assms(2))

lemma steps_emit: "steps R P w w0 \<Longrightarrow> P ev \<Longrightarrow> steps R P w (emit ev w0)"
  by (erule steps_one [where c = "clock w0"]) simp_all

lemma steps_delay: "steps R P w w0 \<Longrightarrow> P (EvDelay n) \<Longrightarrow> steps R P w (delay E n w0)"
  by (erule steps_one [where c = "clock w0"]) simp_all

lemma steps_call: "steps R P w w0 \<Longrightarrow> P ev \<Longrightarrow> steps R P w (call ev f w0)"
  by (erule steps_one [where c = "clock w0"]) simp_all

lemma steps_call_val:
  "steps R P w w0 \<Longrightarrow> P (ev (fst (f (ext w0)))) \<Longrightarrow> steps R P w (snd (call_val ev f w0))"
  by (erule steps_one [where c = "clock w0"]) simp_all

lemma steps_upd_glob:
  "steps R P w w0 \<Longrightarrow> R (glob w) (f (glob w0)) \<Longrightarrow> steps R P w (upd_glob f w0)"
  by (simp add: steps_def)

lemma steps_weaken:
  assumes "steps R P w w'" and "\<And>e. P e \<Longrightarrow> Q e" and "\<And>a b. R a b \<Longrightarrow> S a b"
  shows "steps S Q w w'"
  using assms unfolding steps_def by (auto simp: list_all_iff)

lemma buffers_only_refl [simp]: "buffers_only g g"
  by (simp add: buffers_only_def)

lemma buffers_only_trans: "buffers_only a b \<Longrightarrow> buffers_only b c \<Longrightarrow> buffers_only a c"
  unfolding buffers_only_def
  by (metis (no_types, lifting) globals.surjective globals.update_convs(1,2))

lemma buffers_only_red: "buffers_only a b \<Longrightarrow> buffers_only a (b\<lparr>redBuffer := x\<rparr>)"
  by (erule buffers_only_trans) (simp add: buffers_only_def)

lemma buffers_only_ir: "buffers_only a b \<Longrightarrow> buffers_only a (b\<lparr>irBuffer := x\<rparr>)"
  by (erule buffers_only_trans) (simp add: buffers_only_def)

lemma steps_upd_red:
  "steps buffers_only P w w0 \<Longrightarrow> steps buffers_only P w (upd_glob (\<lambda>g. g\<lparr>redBuffer := x g\<rparr>) w0)"
  by (simp add: steps_def buffers_only_red)

lemma steps_upd_ir:
  "steps buffers_only P w w0 \<Longrightarrow> steps buffers_only P w (upd_glob (\<lambda>g. g\<lparr>irBuffer := x g\<rparr>) w0)"
  by (simp add: steps_def buffers_only_ir)

lemma poll_ev_sensor: "is_poll_ev e \<Longrightarrow> is_sensor_ev e"
  by (cases e) simp_all

lemma steps_filter:
  assumes "steps R P w w'" and "\<And>e. P e \<Longrightarrow> \<not> Q e"
  shows "filter (\<lambda>x. Q (snd x)) (trace w') = filter (\<lambda>x. Q (snd x)) (trace w)"
proof -
  from assms(1) obtain evs where evs: "trace w' = evs @ trace w" "list_all (\<lambda>x. P (snd x)) evs"
    by (auto simp: steps_def)
  have "filter (\<lambda>x. Q (snd x)) evs = []"
    using evs(2) assms(2) by (auto simp: list_all_iff filter_empty_conv)
  then show ?thesis by (simp add: evs(1))
qed

lemma steps_count:
  "steps R P w w' \<Longrightarrow> (\<And>e. P e \<Longrightarrow> \<not> Q e) \<Longrightarrow> count_ev Q w' = count_ev Q w"
  by (simp add: count_ev_def steps_filter)

lemma since_append: "trace w' = evs @ trace w \<Longrightarrow> since w w' = evs"
  by (simp add: since_def)

lemma posted_append: "posted (xs @ ys) = posted xs @ posted ys"
  by (induction xs rule: posted.induct) simp_all

lemma posted_all:
  "list_all (\<lambda>x. is_tick_ev p (snd x)) evs \<Longrightarrow> list_all (\<lambda>d. d = p) (posted evs)"
  by (induction evs rule: posted.induct) simp_all

lemma posted_none:
  "list_all (\<lambda>x. \<not> is_post (snd x)) evs \<Longrightarrow> posted evs = []"
  by (induction evs rule: posted.induct) simp_all

lemma retry_ev_tick: "is_retry_ev p e \<Longrightarrow> is_tick_ev p e"
  by (cases e) simp_all

lemma wifi_ev_tick: "is_wifi_ev e \<Longrightarrow> is_tick_ev p e"
  by (cases e) simp_all

lemma wifi_ev_not_post: "is_wifi_ev e \<Longrightarrow> \<not> is_post e"
  by (cases e) simp_all

lemma sensor_ev_not_estimate: "is_sensor_ev e \<Longrightarrow> \<not> is_estimate e"
  by (cases e) simp_all

lemma sensor_ev_fill: "is_sensor_ev e \<Longrightarrow> is_fill_ev e"
  by (cases e) simp_all

lemma buffers_only_acquired: "buffers_only g g' \<Longrightarrow> acquired g g'"
proof -
  assume "buffers_only g g'"
  then have "g' = g\<lparr>irBuffer := irBuffer g', redBuffer := redBuffer g'\<rparr>"
    by (simp add: buffers_only_def)
  then have "lastSensorRead g' = lastSensorRead (g\<lparr>irBuffer := irBuffer g', redBuffer := redBuffer g'\<rparr>)"
    "lastDataSend g' = lastDataSend (g\<lparr>irBuffer := irBuffer g', redBuffer := redBuffer g'\<rparr>)"
    "bufferLength g' = bufferLength (g\<lparr>irBuffer := irBuffer g', redBuffer := redBuffer g'\<rparr>)"
    by simp_all
  then show ?thesis by (simp add: acquired_def)
qed

lemma steps_posted:
  assumes "steps R P w w'" and "\<And>e. P e \<Longrightarrow> \<not> is_post e"
  shows "posted (trace w') = posted (trace w)"
proof -
  from assms(1) obtain evs where evs: "trace w' = evs @ trace w" "list_all (\<lambda>x. P (snd x)) evs"
    by (auto simp: steps_def)
  have "list_all (\<lambda>x. \<not> is_post (snd x)) evs"
    using evs(2) assms(2) by (simp add: list_all_iff)
  then show ?thesis
    by (simp add: evs(1) posted_append posted_none)
qed

lemma fill_ev_not_post: "is_fill_ev e \<Longrightarrow> \<not> is_post e"
  by (cases e) simp_all

lemma tick_ev_not_estimate: "is_tick_ev p e \<Longrightarrow> \<not> is_estimate e"
  by (cases e) simp_all



subsection \<open>The acquisition\<close>

lemma poll_steps: "steps (=) is_poll_ev w (poll E attempts w)"
proof (induction E attempts w rule: poll.induct)
  case (1 E attempts w)
  define a where "a = sensor_available E (ext w)"
  define w1 where "w1 = emit (EvSensorAvailable a) w"
  have s1: "steps (=) is_poll_ev w w1"
    unfolding w1_def by (intro steps_emit steps_refl) simp_all
  show ?case
  proof (cases "\<not> a \<and> attempts < 100")
    case True
    define w2 where "w2 = delay E 10 (call EvSensorCheck (sensor_check E) w1)"
    have s2: "steps (=) is_poll_ev w w2"
      unfolding w2_def by (intro steps_delay steps_call s1) simp_all
    have "steps (=) is_poll_ev w2 (poll E (attempts + 1) w2)"
      unfolding w2_def using True "1.IH" [OF a_def w1_def] by simp
    moreover have "poll E attempts w = poll E (attempts + 1) w2"
      using True by (subst poll.simps) (simp add: Let_def a_def w1_def w2_def)
    ultimately show ?thesis using s2 by (simp add: steps_append)
  next
    case False
    then have "poll E attempts w = w1"
      by (subst poll.simps) (auto simp: Let_def a_def w1_def)
    then show ?thesis using s1 by simp
  qed
qed

lemma steps_poll:
  "steps R P w w0 \<Longrightarrow> (\<And>e. is_poll_ev e \<Longrightarrow> P e) \<Longrightarrow> steps R P w (poll E attempts w0)"
  by (erule steps_append [OF _ poll_steps])

lemma fill_slot_steps: "steps buffers_only is_sensor_ev w (snd (fill_slot E i w))"
  unfolding fill_slot_def Let_def
  by (simp add: split_beta)
     (intro conjI impI steps_delay steps_call steps_upd_red steps_upd_ir steps_call_val
        steps_emit steps_poll steps_refl; simp add: poll_ev_sensor)

lemma fill_steps: "steps buffers_only is_sensor_ev w (snd (fill E n i w))"
proof (induction E n i w rule: fill.induct)
  case (1 E n i w)
  show ?case
  proof (cases "i < n \<and> fst (fill_slot E i w)")
    case True
    define w' where "w' = snd (fill_slot E i w)"
    have fs: "fill_slot E i w = (True, w')"
      using True by (simp add: w'_def prod_eq_iff)
    have "fill E n i w = fill E n (Suc i) w'"
      using True fs by (subst fill.simps) simp
    moreover have "steps buffers_only is_sensor_ev w' (snd (fill E n (Suc i) w'))"
      using "1.IH" True fs by simp
    moreover have "steps buffers_only is_sensor_ev w w'"
      unfolding w'_def by (rule fill_slot_steps)
    ultimately show ?thesis
      unfolding steps_def
      by (auto intro: buffers_only_trans)
  next
    case False
    then have "snd (fill E n i w) = w \<or> snd (fill E n i w) = snd (fill_slot E i w)"
      by (subst (1 2) fill.simps) (auto split: prod.splits bool.splits)
    then show ?thesis
      using fill_slot_steps [of w E i] by (auto simp: steps_refl)
  qed
qed

lemma poll_unfold:
  "poll E attempts w =
     (if \<not> sensor_available E (ext w) \<and> attempts < 100
      then poll E (attempts + 1)
             (delay E 10 (call EvSensorCheck (sensor_check E) (emit (EvSensorAvailable False) w)))
      else emit (EvSensorAvailable (sensor_available E (ext w))) w)"
  by (subst poll.simps) (simp add: Let_def)

lemma poll_count_check:
  "count_ev is_check (poll E attempts w) \<le> count_ev is_check w + nat (100 - attempts)"
proof (induction E attempts w rule: poll.induct)
  case (1 E attempts w)
  show ?case
  proof (cases "\<not> sensor_available E (ext w) \<and> attempts < 100")
    case True
    then have "nat (100 - attempts) = Suc (nat (100 - (attempts + 1)))"
      by arith
    with True "1.IH" [OF refl refl] show ?thesis
      by (subst poll_unfold) simp
  next
    case False
    then show ?thesis by (subst poll_unfold) auto
  qed
qed

lemma fill_slot_fst: "fst (fill_slot E i w) = sensor_available E (ext (poll E 0 w))"
  by (simp add: fill_slot_def Let_def split_beta)

lemma fill_slot_count_check:
  "count_ev is_check (snd (fill_slot E i w)) \<le> count_ev is_check w + 100"
  using poll_count_check [of E 0 w] by (simp add: fill_slot_def Let_def split_beta)

lemma fill_slot_count_sample:
  "count_ev is_sample (snd (fill_slot E i w)) =
     (if fst (fill_slot E i w) then Suc (count_ev is_sample w) else count_ev is_sample w)"
proof -
  have "count_ev is_sample (poll E 0 w) = count_ev is_sample w"
    by (rule steps_count [OF poll_steps]) (auto elim: is_poll_ev.elims)
  then show ?thesis by (simp add: fill_slot_def Let_def split_beta)
qed

lemma fill_unfold:
  "fill E n i w =
     (if i < n then
        if fst (fill_slot E i w) then fill E n (Suc i) (snd (fill_slot E i w))
        else (False, snd (fill_slot E i w))
      else (True, w))"
  by (subst fill.simps) (auto split: prod.splits bool.splits)

lemma fill_count_check:
  "count_ev is_check (snd (fill E n i w)) \<le> count_ev is_check w + 100 * (n - i)"
proof (induction E n i w rule: fill.induct)
  case (1 E n i w)
  show ?case
  proof (cases "i < n")
    case True
    note lt = this
    show ?thesis
    proof (cases "fst (fill_slot E i w)")
      case True
      have "count_ev is_check (snd (fill E n (Suc i) (snd (fill_slot E i w))))
              \<le> count_ev is_check (snd (fill_slot E i w)) + 100 * (n - Suc i)"
        using "1.IH" [OF lt, of "fst (fill_slot E i w)" "snd (fill_slot E i w)"] True
        by (simp add: prod_eq_iff)
      also have "\<dots> \<le> count_ev is_check w + 100 + 100 * (n - Suc i)"
        using fill_slot_count_check [of E i w] by simp
      also have "\<dots> = count_ev is_check w + 100 * (n - i)"
        using lt by (simp add: Suc_diff_Suc [symmetric] del: Suc_diff_Suc)
      finally show ?thesis using lt True by (subst fill_unfold) simp
    next
      case False
      then show ?thesis
        using lt fill_slot_count_check [of E i w] by (subst fill_unfold) simp
    qed
  next
    case False
    then show ?thesis by (subst fill_unfold) simp
  qed
qed

lemma fill_count_sample:
  "(fst (fill E n i w) \<longrightarrow>
      count_ev is_sample (snd (fill E n i w)) = count_ev is_sample w + (n - i)) \<and>
   (\<not> fst (fill E n i w) \<longrightarrow>
      count_ev is_sample (snd (fill E n i w)) < count_ev is_sample w + (n - i))"
proof (induction E n i w rule: fill.induct)
  case (1 E n i w)
  show ?case
  proof (cases "i < n")
    case True
    note lt = this
    show ?thesis
    proof (cases "fst (fill_slot E i w)")
      case True
      have eq: "fill E n i w = fill E n (Suc i) (snd (fill_slot E i w))"
        using lt True by (subst fill_unfold) simp
      have c: "count_ev is_sample (snd (fill_slot E i w)) = Suc (count_ev is_sample w)"
        using True by (simp add: fill_slot_count_sample)
      have d: "Suc (n - Suc i) = n - i"
        using lt by simp
      show ?thesis
        using "1.IH" [OF lt, of "fst (fill_slot E i w)" "snd (fill_slot E i w)"] True
        unfolding eq c using d by (auto simp: prod_eq_iff)
    next
      case False
      then have "fill E n i w = (False, snd (fill_slot E i w))"
        using lt by (subst fill_unfold) simp
      then show ?thesis
        using lt False by (simp add: fill_slot_count_sample)
    qed
  next
    case False
    then have "fill E n i w = (True, w)"
      by (subst fill_unfold) simp
    then show ?thesis using False by simp
  qed
qed

lemma fill_frame:
  "spo2 (glob (snd (fill E n i w))) = spo2 (glob w)"
  "validSPO2 (glob (snd (fill E n i w))) = validSPO2 (glob w)"
  "heartRate (glob (snd (fill E n i w))) = heartRate (glob w)"
  "validHeartRate (glob (snd (fill E n i w))) = validHeartRate (glob w)"
  "lastSensorRead (glob (snd (fill E n i w))) = lastSensorRead (glob w)"
  "lastDataSend (glob (snd (fill E n i w))) = lastDataSend (glob w)"
  "bufferLength (glob (snd (fill E n i w))) = bufferLength (glob w)"
  "count_ev is_estimate (snd (fill E n i w)) = count_ev is_estimate w"
proof -
  have b: "buffers_only (glob w) (glob (snd (fill E n i w)))"
    using fill_steps [of w E n i] by (simp add: steps_def)
  have sel: "spo2 g' = spo2 g \<and> validSPO2 g' = validSPO2 g \<and> heartRate g' = heartRate g \<and>
      validHeartRate g' = validHeartRate g \<and> lastSensorRead g' = lastSensorRead g \<and>
      lastDataSend g' = lastDataSend g \<and> bufferLength g' = bufferLength g"
    if "buffers_only g g'" for g g'
  proof -
    from that have "g' = g\<lparr>irBuffer := irBuffer g', redBuffer := redBuffer g'\<rparr>"
      by (simp add: buffers_only_def)
    then have "spo2 g' = spo2 (g\<lparr>irBuffer := irBuffer g', redBuffer := redBuffer g'\<rparr>)"
      "validSPO2 g' = validSPO2 (g\<lparr>irBuffer := irBuffer g', redBuffer := redBuffer g'\<rparr>)"
      "heartRate g' = heartRate (g\<lparr>irBuffer := irBuffer g', redBuffer := redBuffer g'\<rparr>)"
      "validHeartRate g' = validHeartRate (g\<lparr>irBuffer := irBuffer g', redBuffer := redBuffer g'\<rparr>)"
      "lastSensorRead g' = lastSensorRead (g\<lparr>irBuffer := irBuffer g', redBuffer := redBuffer g'\<rparr>)"
      "lastDataSend g' = lastDataSend (g\<lparr>irBuffer := irBuffer g', redBuffer := redBuffer g'\<rparr>)"
      "bufferLength g' = bufferLength (g\<lparr>irBuffer := irBuffer g', redBuffer := redBuffer g'\<rparr>)"
      by simp_all
    then show ?thesis by simp
  qed
  from sel [OF b]
  show "spo2 (glob (snd (fill E n i w))) = spo2 (glob w)"
    "validSPO2 (glob (snd (fill E n i w))) = validSPO2 (glob w)"
    "heartRate (glob (snd (fill E n i w))) = heartRate (glob w)"
    "validHeartRate (glob (snd (fill E n i w))) = validHeartRate (glob w)"
    "lastSensorRead (glob (snd (fill E n i w))) = lastSensorRead (glob w)"
    "lastDataSend (glob (snd (fill E n i w))) = lastDataSend (glob w)"
    "bufferLength (glob (snd (fill E n i w))) = bufferLength (glob w)"
    by simp_all
  show "count_ev is_estimate (snd (fill E n i w)) = count_ev is_estimate w"
    by (rule steps_count [OF fill_steps]) (rule sensor_ev_not_estimate)
qed

lemma readSensors_closed:
  "millis w - lastSensorRead (glob w) < SENSOR_READ_INTERVAL \<Longrightarrow> readSensors E w = (False, w)"
  by (simp add: readSensors_def)

lemma readSensors_open:
  assumes "\<not> millis w - lastSensorRead (glob w) < SENSOR_READ_INTERVAL"
  shows "readSensors E w =
     (let w3 = snd (fill E BUFFER_SIZE 0 (acquisition_start w)) in
      if fst (fill E BUFFER_SIZE 0 (acquisition_start w))
      then (True, emit EvEstimate
              (upd_glob (\<lambda>g. g\<lparr>spo2 := fst (estimator E (irBuffer g) (bufferLength g) (redBuffer g)),
                  validSPO2 := fst (snd (estimator E (irBuffer g) (bufferLength g) (redBuffer g))),
                  heartRate := fst (snd (snd (estimator E (irBuffer g) (bufferLength g) (redBuffer g)))),
                  validHeartRate :=
                    snd (snd (snd (estimator E (irBuffer g) (bufferLength g) (redBuffer g))))\<rparr>) w3))
      else (False, w3))"
  using assms
  by (simp add: readSensors_def acquisition_start_def Let_def split_beta
      split: prod.splits bool.splits)

lemma poll_ready: "sensor_available E (ext w) \<Longrightarrow> poll E attempts w = emit (EvSensorAvailable True) w"
  by (subst poll_unfold) simp

lemma fill_always:
  assumes "\<And>e. sensor_available E e"
  shows "fst (fill E n i w) \<and> clock (snd (fill E n i w)) = clock w + 5 * (n - i)"
  using assms
proof (induction E n i w rule: fill.induct)
  case (1 E' n i w)
  show ?case
  proof (cases "i < n")
    case True
    have ready: "sensor_available E' e" for e
      using "1.prems" by simp
    have f: "fst (fill_slot E' i w)"
      by (simp add: fill_slot_fst ready)
    have c: "clock (snd (fill_slot E' i w)) = clock w + 5"
      by (simp add: fill_slot_def Let_def split_beta ready poll_ready)
    have eq: "fill E' n i w = fill E' n (Suc i) (snd (fill_slot E' i w))"
      using True f by (subst fill_unfold) simp
    have "5 + 5 * (n - Suc i) = 5 * (n - i)"
      using True by (simp add: Suc_diff_Suc [symmetric] del: Suc_diff_Suc)
    then show ?thesis
      using "1.IH" [OF True, of "fst (fill_slot E' i w)" "snd (fill_slot E' i w)"] f "1.prems"
      unfolding eq c by (simp add: prod_eq_iff)
  next
    case False
    then have "fill E' n i w = (True, w)"
      by (subst fill_unfold) simp
    then show ?thesis using False by simp
  qed
qed

lemma fill_timeout:
  "i < n \<Longrightarrow> \<not> sensor_available E (ext (poll E 0 w)) \<Longrightarrow>
   fill E n i w = (False, snd (fill_slot E i w))"
  by (subst fill_unfold) (simp add: fill_slot_fst)

lemma fill_acquired: "steps acquired is_fill_ev w (snd (fill E n i w))"
  by (rule steps_weaken [OF fill_steps]) (simp_all add: sensor_ev_fill buffers_only_acquired)

lemma loop_acquire_closed:
  "millis w - lastSensorRead (glob w) < SENSOR_READ_INTERVAL \<Longrightarrow> loop_acquire E w = w"
  by (simp add: loop_acquire_def readSensors_closed)

lemma loop_acquire_open:
  assumes "\<not> millis w - lastSensorRead (glob w) < SENSOR_READ_INTERVAL"
  shows "steps acquired is_fill_ev (acquisition_start w) (loop_acquire E w)"
proof -
  define w3 where "w3 = snd (fill E BUFFER_SIZE 0 (acquisition_start w))"
  have s3: "steps acquired is_fill_ev (acquisition_start w) w3"
    unfolding w3_def by (rule fill_acquired)
  show ?thesis
  proof (cases "fst (fill E BUFFER_SIZE 0 (acquisition_start w))")
    case True
    define f :: "globals \<Rightarrow> globals" where "f = (\<lambda>g. g\<lparr>spo2 := fst (estimator E (irBuffer g) (bufferLength g) (redBuffer g)),
                  validSPO2 := fst (snd (estimator E (irBuffer g) (bufferLength g) (redBuffer g))),
                  heartRate := fst (snd (snd (estimator E (irBuffer g) (bufferLength g) (redBuffer g)))),
                  validHeartRate :=
                    snd (snd (snd (estimator E (irBuffer g) (bufferLength g) (redBuffer g))))\<rparr>)"
    have eq: "loop_acquire E w =
        snd (call_val EvReadObjectTempC (mlx_readObjectTempC E) (emit EvEstimate (upd_glob f w3)))"
      using True by (simp add: loop_acquire_def readSensors_open [OF assms] Let_def w3_def f_def)
    have "acquired (glob (acquisition_start w)) (f (glob w3))"
      using s3 by (simp add: steps_def acquired_def f_def)
    then have "steps acquired is_fill_ev (acquisition_start w) (upd_glob f w3)"
      by (intro steps_upd_glob s3)
    then show ?thesis
      unfolding eq by (intro steps_call_val steps_emit) simp_all
  next
    case False
    then have "loop_acquire E w = w3"
      by (simp add: loop_acquire_def readSensors_open [OF assms] Let_def w3_def)
    then show ?thesis using s3 by simp
  qed
qed

lemma loop_acquire_posted: "posted (trace (loop_acquire E w)) = posted (trace w)"
proof (cases "millis w - lastSensorRead (glob w) < SENSOR_READ_INTERVAL")
  case True
  then show ?thesis by (simp add: loop_acquire_closed)
next
  case False
  have "posted (trace (loop_acquire E w)) = posted (trace (acquisition_start w))"
    by (rule steps_posted [OF loop_acquire_open [OF False]]) (rule fill_ev_not_post)
  then show ?thesis by (simp add: acquisition_start_def)
qed

lemma loop_acquire_no_estimate:
  assumes "count_ev is_estimate (loop_acquire E w) = 0"
  shows "count_ev is_estimate w = 0 \<and>
         validHeartRate (glob (loop_acquire E w)) = validHeartRate (glob w) \<and>
         validSPO2 (glob (loop_acquire E w)) = validSPO2 (glob w)"
proof (cases "millis w - lastSensorRead (glob w) < SENSOR_READ_INTERVAL")
  case True
  then show ?thesis using assms by (simp add: loop_acquire_closed)
next
  case False
  note rs = readSensors_open [OF False, of E]
  show ?thesis
  proof (cases "fst (fill E BUFFER_SIZE 0 (acquisition_start w))")
    case True
    then have "count_ev is_estimate (loop_acquire E w) \<noteq> 0"
      by (simp add: loop_acquire_def rs Let_def)
    with assms show ?thesis by simp
  next
    case False
    then have eq: "loop_acquire E w = snd (fill E BUFFER_SIZE 0 (acquisition_start w))"
      by (simp add: loop_acquire_def rs Let_def)
    show ?thesis
      using assms unfolding eq fill_frame by (simp add: acquisition_start_def)
  qed
qed

subsection \<open>The reconnection\<close>

lemma wifi_wait_unfold:
  "wifi_wait E startAttempt w =
     (if \<not> wifi_status E (ext w) \<and> millis w - startAttempt < 10000
      then wifi_wait E startAttempt (delay E 500 (emit (EvWiFiStatus False) w))
      else emit (EvWiFiStatus (wifi_status E (ext w))) w)"
  by (subst wifi_wait.simps) (simp add: Let_def)

lemma wifi_wait_steps: "steps (=) is_wifi_ev w (wifi_wait E startAttempt w)"
proof (induction E startAttempt w rule: wifi_wait.induct)
  case (1 E startAttempt w)
  show ?case
  proof (cases "\<not> wifi_status E (ext w) \<and> millis w - startAttempt < 10000")
    case True
    define w2 where "w2 = delay E 500 (emit (EvWiFiStatus False) w)"
    have "steps (=) is_wifi_ev w w2"
      unfolding w2_def by (intro steps_delay steps_emit steps_refl) simp_all
    moreover have "steps (=) is_wifi_ev w2 (wifi_wait E startAttempt w2)"
      unfolding w2_def using True "1.IH" [OF refl refl] by simp
    ultimately have "steps (=) is_wifi_ev w (wifi_wait E startAttempt w2)"
      by (rule steps_append)
    then show ?thesis
      using True by (subst wifi_wait_unfold) (simp add: w2_def)
  next
    case False
    have "steps (=) is_wifi_ev w (emit (EvWiFiStatus (wifi_status E (ext w))) w)"
      by (intro steps_emit steps_refl) simp_all
    then show ?thesis
      using False by (subst wifi_wait_unfold) auto
  qed
qed

lemma steps_wifi_wait:
  "steps R P w w0 \<Longrightarrow> (\<And>e. is_wifi_ev e \<Longrightarrow> P e) \<Longrightarrow> steps R P w (wifi_wait E s w0)"
  by (erule steps_append [OF _ wifi_wait_steps])

lemma connect_from_unfold:
  "connect_from E i w =
     (if i < wifiCount then
        if wifi_status E (ext (wifi_wait E (millis w) (call (EvWiFiBegin i) (wifi_begin E i) w)))
        then call EvConfigTime (configTime E)
               (emit (EvWiFiStatus True)
                  (wifi_wait E (millis w) (call (EvWiFiBegin i) (wifi_begin E i) w)))
        else connect_from E (Suc i)
               (emit (EvWiFiStatus False)
                  (wifi_wait E (millis w) (call (EvWiFiBegin i) (wifi_begin E i) w)))
      else w)"
  by (subst connect_from.simps) (simp add: Let_def)

lemma connect_from_steps: "steps (=) is_wifi_ev w (connect_from E i w)"
proof (induction E i w rule: connect_from.induct)
  case (1 E i w)
  define w2 where "w2 = wifi_wait E (millis w) (call (EvWiFiBegin i) (wifi_begin E i) w)"
  have s2: "steps (=) is_wifi_ev w w2"
    unfolding w2_def by (intro steps_wifi_wait steps_call steps_refl) simp_all
  show ?case
  proof (cases "i < wifiCount")
    case True
    note lt = this
    show ?thesis
    proof (cases "wifi_status E (ext w2)")
      case True
      have "steps (=) is_wifi_ev w (call EvConfigTime (configTime E) (emit (EvWiFiStatus True) w2))"
        by (intro steps_call steps_emit s2) simp_all
      then show ?thesis
        using lt True by (subst connect_from_unfold) (simp add: w2_def)
    next
      case False
      define w3 where "w3 = emit (EvWiFiStatus False) w2"
      have "steps (=) is_wifi_ev w w3"
        unfolding w3_def by (intro steps_emit s2) simp_all
      moreover have "steps (=) is_wifi_ev w3 (connect_from E (Suc i) w3)"
        using "1.IH" [OF lt refl refl refl refl refl] False
        by (simp add: w3_def w2_def)
      ultimately have "steps (=) is_wifi_ev w (connect_from E (Suc i) w3)"
        by (rule steps_append)
      then show ?thesis
        using lt False by (subst connect_from_unfold) (simp add: w2_def w3_def)
    qed
  next
    case False
    then show ?thesis by (subst connect_from_unfold) (simp add: steps_refl)
  qed
qed

lemma connect_from_first:
  assumes "i < wifiCount"
  shows "\<exists>evs. trace (connect_from E i w) = evs @ (clock w, EvWiFiBegin i) # trace w \<and>
           list_all (\<lambda>x. is_wifi_ev (snd x)) evs"
proof -
  define w1 where "w1 = call (EvWiFiBegin i) (wifi_begin E i) w"
  define w2 where "w2 = wifi_wait E (millis w) w1"
  have t1: "trace w1 = (clock w, EvWiFiBegin i) # trace w"
    by (simp add: w1_def)
  have s2: "steps (=) is_wifi_ev w1 w2"
    unfolding w2_def by (intro steps_wifi_wait steps_refl) simp_all
  have "steps (=) is_wifi_ev w1 (connect_from E i w)"
  proof (cases "wifi_status E (ext w2)")
    case True
    have "steps (=) is_wifi_ev w1 (call EvConfigTime (configTime E) (emit (EvWiFiStatus True) w2))"
      by (intro steps_call steps_emit s2) simp_all
    then show ?thesis
      using assms True by (subst connect_from_unfold) (simp add: w1_def w2_def)
  next
    case False
    have "steps (=) is_wifi_ev w1 (emit (EvWiFiStatus False) w2)"
      by (intro steps_emit s2) simp_all
    then have "steps (=) is_wifi_ev w1 (connect_from E (Suc i) (emit (EvWiFiStatus False) w2))"
      by (rule steps_append [OF _ connect_from_steps])
    then show ?thesis
      using assms False by (subst connect_from_unfold) (simp add: w1_def w2_def)
  qed
  then show ?thesis
    unfolding steps_def t1 by simp
qed

subsection \<open>The payload and the retry loop\<close>

lemma post_loop_unfold:
  "post_loop E p retryCount w =
     (if retryCount < maxRetries then
        let c = fst (http_POST E p (ext w));
            w1 = snd (call_val (EvHttpPOST p) (http_POST E p) w)
        in if c = 200 \<or> c = 201 \<or> c = 301 \<or> c = 302 then w1
           else post_loop E p (retryCount + 1)
                  (if retryCount + 1 < maxRetries then delay E 2000 w1 else w1)
      else w)"
  by (subst post_loop.simps) (auto simp: Let_def split_beta)

lemma post_loop_steps: "steps (=) (is_retry_ev p) w (post_loop E p retryCount w)"
proof (induction E p retryCount w rule: post_loop.induct)
  case (1 E p retryCount w)
  define c where "c = fst (http_POST E p (ext w))"
  define w1 where "w1 = snd (call_val (EvHttpPOST p) (http_POST E p) w)"
  define w2 where "w2 = (if retryCount + 1 < maxRetries then delay E 2000 w1 else w1)"
  have cv: "call_val (EvHttpPOST p) (http_POST E p) w = (c, w1)"
    by (simp add: c_def w1_def prod_eq_iff)
  have s1: "steps (=) (is_retry_ev p) w w1"
    unfolding w1_def by (intro steps_call_val steps_refl) simp_all
  have s2: "steps (=) (is_retry_ev p) w w2"
    unfolding w2_def by (auto intro!: steps_delay s1)
  show ?case
  proof (cases "retryCount < maxRetries \<and> \<not> (c = 200 \<or> c = 201 \<or> c = 301 \<or> c = 302)")
    case True
    have "steps (=) (is_retry_ev p) w2 (post_loop E p (retryCount + 1) w2)"
    proof (cases "c > 0")
      case True
      with \<open>retryCount < maxRetries \<and> _\<close> "1.IH"(1) [OF _ cv [symmetric]] show ?thesis
        by (simp add: w2_def)
    next
      case False
      with True "1.IH"(2) [OF _ cv [symmetric]] show ?thesis
        by (simp add: w2_def)
    qed
    with s2 have "steps (=) (is_retry_ev p) w (post_loop E p (retryCount + 1) w2)"
      by (rule steps_append)
    then show ?thesis
      using True unfolding c_def w1_def w2_def
      by (subst post_loop_unfold) (auto simp: Let_def split: if_splits)
  next
    case False
    then have "post_loop E p retryCount w = w \<or> post_loop E p retryCount w = w1"
      by (subst (1 2) post_loop_unfold) (auto simp: Let_def c_def w1_def)
    then show ?thesis using s1 by (auto simp: steps_refl)
  qed
qed

lemma getCurrentTimestamp_snd [simp]: "snd (getCurrentTimestamp E w) = emit EvGetLocalTime w"
  by (simp add: getCurrentTimestamp_def Let_def split: option.split)

lemma getCurrentTimestamp_fst:
  "fst (getCurrentTimestamp E w) =
     (case getLocalTime E (ext w) of None \<Rightarrow> dec_string (unat (millis w)) | Some buffer \<Rightarrow> buffer)"
  by (simp add: getCurrentTimestamp_def Let_def split: option.split)

lemma build_payload_snd:
  "snd (build_payload E w) =
     emit EvGetLocalTime (snd (call_val EvReadObjectTempC (mlx_readObjectTempC E) w))"
  by (simp add: build_payload_def Let_def split_beta)

lemma build_payload_fst:
  "fst (build_payload E w) =
     [(''device_id'', JInt 1),
      (''heart_rate'', JInt (if validHeartRate (glob w) \<noteq> 0 then sint (heartRate (glob w)) else 0)),
      (''spo2'', JInt (if validSPO2 (glob w) \<noteq> 0 then sint (spo2 (glob w)) else 0)),
      (''temp_skin'', JFloat (fst (mlx_readObjectTempC E (ext w)))),
      (''timestamp'', JString (fst (getCurrentTimestamp E
          (snd (call_val EvReadObjectTempC (mlx_readObjectTempC E) w)))))]"
  by (simp add: build_payload_def Let_def split_beta DEVICE_ID_def)

lemma build_payload_cong:
  "glob w' = glob w \<Longrightarrow> ext w' = ext w \<Longrightarrow> clock w' = clock w \<Longrightarrow>
   fst (build_payload E w') = fst (build_payload E w)"
  by (simp add: build_payload_fst getCurrentTimestamp_fst millis_def split: option.split)

lemma send_down:
  "\<not> wifi_status E (ext w) \<Longrightarrow>
   sendDataToBackend E w = connectWiFi E (emit (EvWiFiStatus False) w)"
  by (simp add: sendDataToBackend_def Let_def)

lemma send_up:
  "wifi_status E (ext w) \<Longrightarrow>
   sendDataToBackend E w =
     emit EvHttpEnd
       (post_loop E (fst (build_payload E w)) 0
          (snd (build_payload E (emit EvHttpBegin (emit (EvWiFiStatus True) w)))))"
proof -
  assume up: "wifi_status E (ext w)"
  have "fst (build_payload E (emit EvHttpBegin (emit (EvWiFiStatus True) w))) = fst (build_payload E w)"
    by (rule build_payload_cong) simp_all
  with up show ?thesis
    by (simp add: sendDataToBackend_def Let_def split_beta)
qed

lemma steps_post_loop:
  "steps R P w w0 \<Longrightarrow> (\<And>e. is_retry_ev p e \<Longrightarrow> P e) \<Longrightarrow> steps R P w (post_loop E p r w0)"
  by (erule steps_append [OF _ post_loop_steps])

lemma send_steps: "steps (=) (is_tick_ev (fst (build_payload E w))) w (sendDataToBackend E w)"
proof (cases "wifi_status E (ext w)")
  case True
  show ?thesis
    unfolding send_up [OF True] build_payload_snd
    by (intro steps_emit steps_post_loop steps_call_val steps_refl) (simp_all add: retry_ev_tick)
next
  case False
  have "steps (=) (is_tick_ev (fst (build_payload E w))) w (emit (EvWiFiStatus False) w)"
    by (intro steps_emit steps_refl) simp_all
  then show ?thesis
    unfolding send_down [OF False] connectWiFi_def
    by (rule steps_append [OF _ connect_from_steps]) (rule wifi_ev_tick)
qed

lemma post_loop_first:
  assumes "retryCount < maxRetries"
  shows "\<exists>evs. trace (post_loop E p retryCount w) =
            evs @ (clock w, EvHttpPOST p (fst (http_POST E p (ext w)))) # trace w \<and>
          list_all (\<lambda>x. is_retry_ev p (snd x)) evs"
proof -
  define w1 where "w1 = snd (call_val (EvHttpPOST p) (http_POST E p) w)"
  define w2 where "w2 = (if retryCount + 1 < maxRetries then delay E 2000 w1 else w1)"
  have t1: "trace w1 = (clock w, EvHttpPOST p (fst (http_POST E p (ext w)))) # trace w"
    by (simp add: w1_def)
  have "steps (=) (is_retry_ev p) w1 w2"
    unfolding w2_def by (auto intro!: steps_delay steps_refl)
  then have "steps (=) (is_retry_ev p) w1 (post_loop E p (retryCount + 1) w2)"
    by (rule steps_post_loop)
  moreover have "steps (=) (is_retry_ev p) w1 w1"
    by (simp add: steps_refl)
  moreover have "post_loop E p retryCount w = w1 \<or>
      post_loop E p retryCount w = post_loop E p (retryCount + 1) w2"
    using assms by (subst (1 2) post_loop_unfold) (simp add: Let_def w1_def w2_def)
  ultimately have "steps (=) (is_retry_ev p) w1 (post_loop E p retryCount w)"
    by auto
  then show ?thesis
    unfolding steps_def t1 by simp
qed

lemma send_up_trace:
  assumes "wifi_status E (ext w)"
  shows "\<exists>evs c. trace (sendDataToBackend E w) =
            (c, EvHttpEnd) # evs @
            [(clock w, EvHttpPOST (fst (build_payload E w))
                 (fst (http_POST E (fst (build_payload E w)) (snd (mlx_readObjectTempC E (ext w)))))),
             (clock w, EvGetLocalTime),
             (clock w, EvReadObjectTempC (fst (mlx_readObjectTempC E (ext w)))),
             (clock w, EvHttpBegin), (clock w, EvWiFiStatus True)] @ trace w \<and>
          list_all (\<lambda>x. is_retry_ev (fst (build_payload E w)) (snd x)) evs"
proof -
  define w2 where "w2 = snd (build_payload E (emit EvHttpBegin (emit (EvWiFiStatus True) w)))"
  have "0 < maxRetries" by (simp add: maxRetries_def)
  from post_loop_first [OF this, of E "fst (build_payload E w)" w2]
  obtain evs where evs:
    "trace (post_loop E (fst (build_payload E w)) 0 w2) =
       evs @ (clock w2, EvHttpPOST (fst (build_payload E w))
                (fst (http_POST E (fst (build_payload E w)) (ext w2)))) # trace w2"
    "list_all (\<lambda>x. is_retry_ev (fst (build_payload E w)) (snd x)) evs"
    by blast
  have "trace (sendDataToBackend E w) =
      (clock (post_loop E (fst (build_payload E w)) 0 w2), EvHttpEnd) #
      trace (post_loop E (fst (build_payload E w)) 0 w2)"
    by (simp add: send_up [OF assms] w2_def)
  then show ?thesis
    using evs by (simp add: w2_def build_payload_snd)
qed

lemma sent_docs_all: "list_all (\<lambda>d. d = fst (build_payload E w)) (sent_docs E w)"
proof -
  from send_steps [of E w] obtain evs where
    "trace (sendDataToBackend E w) = evs @ trace w"
    "list_all (\<lambda>x. is_tick_ev (fst (build_payload E w)) (snd x)) evs"
    by (auto simp: steps_def)
  then show ?thesis
    by (simp add: sent_docs_def since_append posted_all)
qed

lemma sent_docs_nonempty:
  assumes "wifi_status E (ext w)"
  shows "sent_docs E w \<noteq> []"
proof -
  from send_up_trace [OF assms] obtain evs c x where
    "trace (sendDataToBackend E w) = ((c, EvHttpEnd) # evs @
       [(clock w, EvHttpPOST (fst (build_payload E w)) x), (clock w, EvGetLocalTime),
        (clock w, EvReadObjectTempC (fst (mlx_readObjectTempC E (ext w)))),
        (clock w, EvHttpBegin), (clock w, EvWiFiStatus True)]) @ trace w"
    by auto
  from since_append [OF this] show ?thesis
    by (simp add: sent_docs_def posted_append)
qed

lemma sent_docs_example:
  "sent_docs (sim_env True True 200) est_world =
     [[(''device_id'', JInt 1), (''heart_rate'', JInt 72), (''spo2'', JInt 98),
       (''temp_skin'', JFloat 36.5), (''timestamp'', JString ''2025-01-01T00:00:00'')]]"
  by (simp add: sent_docs_def since_def send_up [OF est_world_simps(5)] post_loop_unfold
      maxRetries_def build_payload_fst build_payload_snd getCurrentTimestamp_fst Let_def)
    (simp add: sim_env_def est_world_def boot_def zero_globals_def)

lemma post_loop_count:
  "count_ev is_post (post_loop E p retryCount w)
     \<le> count_ev is_post w + nat (maxRetries - retryCount)"
proof (induction E p retryCount w rule: post_loop.induct)
  case (1 E p retryCount w)
  define c where "c = fst (http_POST E p (ext w))"
  define w1 where "w1 = snd (call_val (EvHttpPOST p) (http_POST E p) w)"
  define w2 where "w2 = (if retryCount + 1 < maxRetries then delay E 2000 w1 else w1)"
  have cv: "call_val (EvHttpPOST p) (http_POST E p) w = (c, w1)"
    by (simp add: c_def w1_def prod_eq_iff)
  have c1: "count_ev is_post w1 = Suc (count_ev is_post w)"
    by (simp add: w1_def)
  have c2: "count_ev is_post w2 = Suc (count_ev is_post w)"
    by (simp add: w2_def c1)
  show ?case
  proof (cases "retryCount < maxRetries \<and> \<not> (c = 200 \<or> c = 201 \<or> c = 301 \<or> c = 302)")
    case True
    have "count_ev is_post (post_loop E p (retryCount + 1) w2)
            \<le> count_ev is_post w2 + nat (maxRetries - (retryCount + 1))"
    proof (cases "c > 0")
      case True
      with \<open>retryCount < maxRetries \<and> _\<close> "1.IH"(1) [OF _ cv [symmetric]] show ?thesis
        by (simp add: w2_def)
    next
      case False
      with True "1.IH"(2) [OF _ cv [symmetric]] show ?thesis
        by (simp add: w2_def)
    qed
    moreover have "nat (maxRetries - retryCount) = Suc (nat (maxRetries - (retryCount + 1)))"
      using True by arith
    moreover have "post_loop E p retryCount w = post_loop E p (retryCount + 1) w2"
      using True unfolding c_def w1_def w2_def
      by (subst post_loop_unfold) (auto simp: Let_def)
    ultimately show ?thesis by (simp add: c2)
  next
    case False
    then have "post_loop E p retryCount w = w \<or>
        retryCount < maxRetries \<and> post_loop E p retryCount w = w1"
      by (subst (1 2) post_loop_unfold) (auto simp: Let_def c_def w1_def)
    then show ?thesis using c1 by auto
  qed
qed

lemma send_down_steps:
  assumes "\<not> wifi_status E (ext w)"
  shows "steps (=) is_wifi_ev w (sendDataToBackend E w)"
proof -
  have "steps (=) is_wifi_ev w (emit (EvWiFiStatus False) w)"
    by (intro steps_emit steps_refl) simp_all
  then show ?thesis
    unfolding send_down [OF assms] connectWiFi_def
    by (rule steps_append [OF _ connect_from_steps])
qed

lemma send_count_post: "count_ev is_post (sendDataToBackend E w) \<le> count_ev is_post w + 3"
proof (cases "wifi_status E (ext w)")
  case True
  show ?thesis
    using post_loop_count [of E "fst (build_payload E w)" 0
      "snd (build_payload E (emit EvHttpBegin (emit (EvWiFiStatus True) w)))"]
    by (simp add: send_up [OF True] build_payload_snd maxRetries_def)
next
  case False
  have "count_ev is_post (sendDataToBackend E w) = count_ev is_post w"
    by (rule steps_count [OF send_down_steps [OF False]]) (auto elim: is_wifi_ev.elims)
  then show ?thesis by simp
qed

lemma post_loop_transient:
  assumes "retryCount < maxRetries" and "transient (fst (http_POST E p (ext w)))"
  shows "post_loop E p retryCount w =
           post_loop E p (retryCount + 1)
             (if retryCount + 1 < maxRetries
              then delay E 2000 (snd (call_val (EvHttpPOST p) (http_POST E p) w))
              else snd (call_val (EvHttpPOST p) (http_POST E p) w))"
  using assms by (subst post_loop_unfold) (auto simp: Let_def transient_def)

lemma post_loop_done: "\<not> retryCount < maxRetries \<Longrightarrow> post_loop E p retryCount w = w"
  by (subst post_loop_unfold) simp

lemma post_loop_stop:
  assumes "retryCount < maxRetries"
    and "fst (http_POST E p (ext w)) \<in> {200, 201, 301, 302}"
  shows "post_loop E p retryCount w = snd (call_val (EvHttpPOST p) (http_POST E p) w)"
  using assms by (subst post_loop_unfold) (auto simp: Let_def)

lemma post_loop_three_transient:
  assumes "http_POST E p (ext w) = (c1, e1)" "transient c1"
    and "http_POST E p (elapse E 2000 e1) = (c2, e2)" "transient c2"
    and "http_POST E p (elapse E 2000 e2) = (c3, e3)" "transient c3"
  shows "trace (post_loop E p 0 w) =
           [(clock w + 4000, EvHttpPOST p c3), (clock w + 2000, EvDelay 2000),
            (clock w + 2000, EvHttpPOST p c2), (clock w, EvDelay 2000),
            (clock w, EvHttpPOST p c1)] @ trace w"
    and "clock (post_loop E p 0 w) = clock w + 4000"
    and "glob (post_loop E p 0 w) = glob w"
proof -
  define w1 where "w1 = delay E 2000 (snd (call_val (EvHttpPOST p) (http_POST E p) w))"
  define w2 where "w2 = delay E 2000 (snd (call_val (EvHttpPOST p) (http_POST E p) w1))"
  define w3 where "w3 = snd (call_val (EvHttpPOST p) (http_POST E p) w2)"
  have e1: "ext w1 = elapse E 2000 e1" by (simp add: w1_def assms(1))
  have e2: "ext w2 = elapse E 2000 e2" by (simp add: w2_def e1 assms(3))
  have "post_loop E p 0 w = post_loop E p 1 w1"
    using post_loop_transient [of 0 E p w] assms(1,2) by (simp add: maxRetries_def w1_def)
  also have "\<dots> = post_loop E p 2 w2"
    using post_loop_transient [of 1 E p w1] assms(3,4) by (simp add: maxRetries_def w2_def e1)
  also have "\<dots> = post_loop E p 3 w3"
    using post_loop_transient [of 2 E p w2] assms(5,6) by (simp add: maxRetries_def w3_def e2)
  also have "\<dots> = w3"
    by (rule post_loop_done) (simp add: maxRetries_def)
  finally have eq: "post_loop E p 0 w = w3" .
  show "trace (post_loop E p 0 w) =
           [(clock w + 4000, EvHttpPOST p c3), (clock w + 2000, EvDelay 2000),
            (clock w + 2000, EvHttpPOST p c2), (clock w, EvDelay 2000),
            (clock w, EvHttpPOST p c1)] @ trace w"
    unfolding eq w3_def by (simp add: e2 e1 assms(1,3,5)) (simp add: w2_def w1_def e1 assms(1,3))
  show "clock (post_loop E p 0 w) = clock w + 4000"
    unfolding eq by (simp add: w3_def w2_def w1_def)
  show "glob (post_loop E p 0 w) = glob w"
    unfolding eq by (simp add: w3_def w2_def w1_def)
qed

lemma send_down_trace:
  assumes "\<not> wifi_status E (ext w)"
  shows "\<exists>evs. trace (sendDataToBackend E w) =
            evs @ [(clock w, EvWiFiBegin 0), (clock w, EvWiFiStatus False)] @ trace w \<and>
          list_all (\<lambda>x. is_wifi_ev (snd x)) evs"
proof -
  have "0 < wifiCount" by (simp add: wifiCount_def)
  from connect_from_first [OF this, of E "emit (EvWiFiStatus False) w"]
  show ?thesis
    by (simp add: send_down [OF assms] connectWiFi_def)
qed

lemma send_delivered:
  assumes "wifi_status E (ext w)"
    and "fst (http_POST E (fst (build_payload E w)) (snd (mlx_readObjectTempC E (ext w)))) = 200"
  shows "sendDataToBackend E w =
     emit EvHttpEnd
       (snd (call_val (EvHttpPOST (fst (build_payload E w))) (http_POST E (fst (build_payload E w)))
          (snd (build_payload E (emit EvHttpBegin (emit (EvWiFiStatus True) w))))))"
proof -
  have "0 < maxRetries" by (simp add: maxRetries_def)
  then have "post_loop E (fst (build_payload E w)) 0
       (snd (build_payload E (emit EvHttpBegin (emit (EvWiFiStatus True) w)))) =
     snd (call_val (EvHttpPOST (fst (build_payload E w))) (http_POST E (fst (build_payload E w)))
          (snd (build_payload E (emit EvHttpBegin (emit (EvWiFiStatus True) w)))))"
    by (rule post_loop_stop) (simp add: build_payload_snd assms(2))
  then show ?thesis
    by (simp add: send_up [OF assms(1)])
qed


subsection \<open>The scheduler\<close>

lemma loop_transmit_reports:
  "count_ev is_estimate (loop_transmit E t w) = count_ev is_estimate w \<and>
   validHeartRate (glob (loop_transmit E t w)) = validHeartRate (glob w) \<and>
   validSPO2 (glob (loop_transmit E t w)) = validSPO2 (glob w) \<and>
   (validHeartRate (glob w) = 0 \<and> validSPO2 (glob w) = 0 \<and>
    list_all reports_zero (posted (trace w)) \<longrightarrow>
    list_all reports_zero (posted (trace (loop_transmit E t w))))"
proof (cases "DATA_SEND_INTERVAL \<le> t - lastDataSend (glob w)")
  case False
  then show ?thesis by (simp add: loop_transmit_def)
next
  case True
  define w0 where "w0 = emit (EvTransmission t) (upd_glob (\<lambda>g. g\<lparr>lastDataSend := t\<rparr>) w)"
  have eq: "loop_transmit E t w = sendDataToBackend E w0"
    using True by (simp add: loop_transmit_def w0_def)
  note st = send_steps [of E w0]
  from st obtain evs where evs: "trace (sendDataToBackend E w0) = evs @ trace w0"
    "list_all (\<lambda>x. is_tick_ev (fst (build_payload E w0)) (snd x)) evs"
    by (auto simp: steps_def)
  have g: "glob (sendDataToBackend E w0) = glob w0"
    using st by (simp add: steps_def)
  have c: "count_ev is_estimate (sendDataToBackend E w0) = count_ev is_estimate w0"
    by (rule steps_count [OF st]) (rule tick_ev_not_estimate)
  have t0: "trace w0 = (clock w, EvTransmission t) # trace w"
    by (simp add: w0_def)
  have p: "posted (trace (sendDataToBackend E w0)) = posted evs @ posted (trace w)"
    by (simp add: evs(1) posted_append t0)
  have all: "list_all (\<lambda>d. d = fst (build_payload E w0)) (posted evs)"
    by (rule posted_all [OF evs(2)])
  have z: "list_all reports_zero (posted evs)"
    if "validHeartRate (glob w) = 0" "validSPO2 (glob w) = 0"
    using all
    by (rule list.pred_mono_strong) (simp add: reports_zero_def build_payload_fst w0_def that)
  show ?thesis
    unfolding eq g c p using z by (simp add: w0_def)
qed

lemma loop_keeps_zero:
  assumes inv: "count_ev is_estimate w = 0 \<longrightarrow>
       validHeartRate (glob w) = 0 \<and> validSPO2 (glob w) = 0 \<and>
       list_all reports_zero (posted (trace w))"
    and none: "count_ev is_estimate (loop E w) = 0"
  shows "validHeartRate (glob (loop E w)) = 0 \<and> validSPO2 (glob (loop E w)) = 0 \<and>
       list_all reports_zero (posted (trace (loop E w)))"
proof -
  define w1 where "w1 = loop_acquire E w"
  define w2 where "w2 = loop_transmit E (millis w) w1"
  have l: "loop E w = delay E 100 w2"
    by (simp add: loop_def Let_def w1_def w2_def)
  note tx = loop_transmit_reports [of E "millis w" w1, folded w2_def]
  have "count_ev is_estimate w1 = 0"
    using none tx by (simp add: l)
  from loop_acquire_no_estimate [OF this [unfolded w1_def]]
  have a: "count_ev is_estimate w = 0" "validHeartRate (glob w1) = validHeartRate (glob w)"
    "validSPO2 (glob w1) = validSPO2 (glob w)"
    by (simp_all add: w1_def)
  have "posted (trace w1) = posted (trace w)"
    by (simp add: w1_def loop_acquire_posted)
  with inv a have "validHeartRate (glob w1) = 0" "validSPO2 (glob w1) = 0"
    "list_all reports_zero (posted (trace w1))"
    by simp_all
  with tx show ?thesis
    by (simp add: l)
qed

lemma run_keeps_zero:
  assumes "count_ev is_estimate w = 0 \<longrightarrow>
       validHeartRate (glob w) = 0 \<and> validSPO2 (glob w) = 0 \<and>
       list_all reports_zero (posted (trace w))"
  shows "count_ev is_estimate (run E n w) = 0 \<longrightarrow>
       validHeartRate (glob (run E n w)) = 0 \<and> validSPO2 (glob (run E n w)) = 0 \<and>
       list_all reports_zero (posted (trace (run E n w)))"
  using assms
proof (induction n arbitrary: w)
  case 0
  then show ?case by simp
next
  case (Suc n)
  have "count_ev is_estimate (loop E w) = 0 \<longrightarrow>
       validHeartRate (glob (loop E w)) = 0 \<and> validSPO2 (glob (loop E w)) = 0 \<and>
       list_all reports_zero (posted (trace (loop E w)))"
    using loop_keeps_zero [OF Suc.prems] by blast
  from Suc.IH [OF this] show ?case by simp
qed

lemma first_pass_1500:
  "count_ev is_estimate (run (sim_env True True 200) 1 (boot 1500 ())) = 0"
  "posted (trace (run (sim_env True True 200) 1 (boot 1500 ()))) =
     [[(''device_id'', JInt 1), (''heart_rate'', JInt 0), (''spo2'', JInt 0),
       (''temp_skin'', JFloat 36.5), (''timestamp'', JString ''2025-01-01T00:00:00'')]]"
proof -
  let ?E = "sim_env True True 200"
  let ?w = "boot 1500 () :: (unit, real) world"
  let ?v = "emit (EvTransmission 1500) (upd_glob (\<lambda>g. g\<lparr>lastDataSend := 1500\<rparr>) ?w)"
  have closed: "millis ?w - lastSensorRead (glob ?w) < SENSOR_READ_INTERVAL"
    by (simp add: millis_def SENSOR_READ_INTERVAL_def zero_globals_def)
  have "DATA_SEND_INTERVAL \<le> millis ?w - lastDataSend (glob ?w)"
    by (simp add: millis_def DATA_SEND_INTERVAL_def zero_globals_def)
  then have tx: "loop_transmit ?E (millis ?w) ?w = sendDataToBackend ?E ?v"
    by (simp add: loop_transmit_def millis_def)
  have l: "run ?E 1 ?w = delay ?E 100 (sendDataToBackend ?E ?v)"
    by (simp add: loop_def Let_def loop_acquire_closed [OF closed] tx)
  have s: "sendDataToBackend ?E ?v =
     emit EvHttpEnd
       (snd (call_val (EvHttpPOST (fst (build_payload ?E ?v)))
          (http_POST ?E (fst (build_payload ?E ?v)))
          (snd (build_payload ?E (emit EvHttpBegin (emit (EvWiFiStatus True) ?v))))))"
    by (rule send_delivered) simp_all
  show "count_ev is_estimate (run ?E 1 ?w) = 0"
    unfolding l s by (simp add: build_payload_snd)
  show "posted (trace (run ?E 1 ?w)) =
     [[(''device_id'', JInt 1), (''heart_rate'', JInt 0), (''spo2'', JInt 0),
       (''temp_skin'', JFloat 36.5), (''timestamp'', JString ''2025-01-01T00:00:00'')]]"
    unfolding l s
    by (simp add: build_payload_snd build_payload_fst getCurrentTimestamp_fst zero_globals_def)
qed














lemma red_values_append: "red_values (xs @ ys) = red_values xs @ red_values ys"
  by (induction xs rule: red_values.induct) simp_all

lemma ir_values_append: "ir_values (xs @ ys) = ir_values xs @ ir_values ys"
  by (induction xs rule: ir_values.induct) simp_all

lemma red_values_poll_evs:
  "list_all (\<lambda>x. is_poll_ev (snd x)) evs \<Longrightarrow> red_values evs = [] \<and> ir_values evs = []"
  by (induction evs rule: red_values.induct) simp_all

lemma poll_values:
  "red_values (trace (poll E attempts w)) = red_values (trace w)"
  "ir_values (trace (poll E attempts w)) = ir_values (trace w)"
  "glob (poll E attempts w) = glob w"
proof -
  from poll_steps [of w E attempts] obtain evs where
    evs: "trace (poll E attempts w) = evs @ trace w" "list_all (\<lambda>x. is_poll_ev (snd x)) evs"
    and g: "glob (poll E attempts w) = glob w"
    by (auto simp: steps_def)
  show "red_values (trace (poll E attempts w)) = red_values (trace w)"
    "ir_values (trace (poll E attempts w)) = ir_values (trace w)"
    using red_values_poll_evs [OF evs(2)] by (simp_all add: evs(1) red_values_append ir_values_append)
  show "glob (poll E attempts w) = glob w" by (rule g)
qed

text \<open>What one successful slot reads and where it stores it.\<close>

lemma fill_slot_stores:
  assumes "fst (fill_slot E i w)"
  shows "redBuffer (glob (snd (fill_slot E i w))) =
           (redBuffer (glob w))[i := fst (sensor_getRed E (ext (poll E 0 w)))]"
    and "irBuffer (glob (snd (fill_slot E i w))) =
           (irBuffer (glob w))[i := fst (sensor_getIR E (snd (sensor_getRed E (ext (poll E 0 w)))))]"
    and "red_values (trace (snd (fill_slot E i w))) =
           fst (sensor_getRed E (ext (poll E 0 w))) # red_values (trace w)"
    and "ir_values (trace (snd (fill_slot E i w))) =
           fst (sensor_getIR E (snd (sensor_getRed E (ext (poll E 0 w))))) # ir_values (trace w)"
proof -
  have a: "sensor_available E (ext (poll E 0 w))"
    using assms by (simp add: fill_slot_fst)
  show "redBuffer (glob (snd (fill_slot E i w))) =
           (redBuffer (glob w))[i := fst (sensor_getRed E (ext (poll E 0 w)))]"
    and "irBuffer (glob (snd (fill_slot E i w))) =
           (irBuffer (glob w))[i := fst (sensor_getIR E (snd (sensor_getRed E (ext (poll E 0 w)))))]"
    and "red_values (trace (snd (fill_slot E i w))) =
           fst (sensor_getRed E (ext (poll E 0 w))) # red_values (trace w)"
    and "ir_values (trace (snd (fill_slot E i w))) =
           fst (sensor_getIR E (snd (sensor_getRed E (ext (poll E 0 w))))) # ir_values (trace w)"
    by (simp_all add: fill_slot_def Let_def split_beta poll_values a)
qed

lemma fill_stores:
  assumes "fst (fill E n i w)" and "i \<le> n"
    and "n \<le> length (redBuffer (glob w))" and "n \<le> length (irBuffer (glob w))"
  shows "\<exists>rs irs. length rs = n - i \<and> length irs = n - i \<and>
     redBuffer (glob (snd (fill E n i w))) =
       take i (redBuffer (glob w)) @ rs @ drop n (redBuffer (glob w)) \<and>
     irBuffer (glob (snd (fill E n i w))) =
       take i (irBuffer (glob w)) @ irs @ drop n (irBuffer (glob w)) \<and>
     red_values (trace (snd (fill E n i w))) = rev rs @ red_values (trace w) \<and>
     ir_values (trace (snd (fill E n i w))) = rev irs @ ir_values (trace w)"
  using assms
proof (induction E n i w rule: fill.induct)
  case (1 E n i w)
  show ?case
  proof (cases "i < n")
    case False
    then have "fill E n i w = (True, w)"
      by (subst fill_unfold) simp
    moreover have "i = n"
      using False "1.prems"(2) by simp
    ultimately show ?thesis
      by simp
  next
    case True
    note lt = this
    have ok: "fst (fill_slot E i w)"
      using "1.prems"(1) lt by (subst (asm) fill_unfold) (simp split: if_splits)
    define w1 where "w1 = snd (fill_slot E i w)"
    define r where "r = fst (sensor_getRed E (ext (poll E 0 w)))"
    define ir where "ir = fst (sensor_getIR E (snd (sensor_getRed E (ext (poll E 0 w)))))"
    note st = fill_slot_stores [OF ok, folded w1_def r_def ir_def]
    have eq: "fill E n i w = fill E n (Suc i) w1"
      using lt ok by (subst fill_unfold) (simp add: w1_def)
    have len: "n \<le> length (redBuffer (glob w1))" "n \<le> length (irBuffer (glob w1))"
      using "1.prems"(3,4) by (simp_all add: st)
    have le: "Suc i \<le> n" using lt by simp
    have "fst (fill E n (Suc i) w1)"
      using "1.prems"(1) by (simp add: eq)
    from "1.IH" [OF lt _ _ this le len, of "fst (fill_slot E i w)"] ok
    obtain rs irs where ih: "length rs = n - Suc i" "length irs = n - Suc i"
      "redBuffer (glob (snd (fill E n (Suc i) w1))) =
         take (Suc i) (redBuffer (glob w1)) @ rs @ drop n (redBuffer (glob w1))"
      "irBuffer (glob (snd (fill E n (Suc i) w1))) =
         take (Suc i) (irBuffer (glob w1)) @ irs @ drop n (irBuffer (glob w1))"
      "red_values (trace (snd (fill E n (Suc i) w1))) = rev rs @ red_values (trace w1)"
      "ir_values (trace (snd (fill E n (Suc i) w1))) = rev irs @ ir_values (trace w1)"
      by (auto simp: w1_def prod_eq_iff)
    have li: "i < length (redBuffer (glob w))" "i < length (irBuffer (glob w))"
      using lt "1.prems"(3,4) by simp_all
    have t: "take (Suc i) ((redBuffer (glob w))[i := r]) = take i (redBuffer (glob w)) @ [r]"
      "take (Suc i) ((irBuffer (glob w))[i := ir]) = take i (irBuffer (glob w)) @ [ir]"
      using li by (simp_all add: take_Suc_conv_app_nth)
    have d: "drop n ((redBuffer (glob w))[i := r]) = drop n (redBuffer (glob w))"
      "drop n ((irBuffer (glob w))[i := ir]) = drop n (irBuffer (glob w))"
      using lt by simp_all
    have "length (r # rs) = n - i" "length (ir # irs) = n - i"
      using ih(1,2) lt by simp_all
    moreover have "redBuffer (glob (snd (fill E n i w))) =
        take i (redBuffer (glob w)) @ (r # rs) @ drop n (redBuffer (glob w))"
      "irBuffer (glob (snd (fill E n i w))) =
        take i (irBuffer (glob w)) @ (ir # irs) @ drop n (irBuffer (glob w))"
      unfolding eq ih(3,4) st(1,2) t d by simp_all
    moreover have "red_values (trace (snd (fill E n i w))) = rev (r # rs) @ red_values (trace w)"
      "ir_values (trace (snd (fill E n i w))) = rev (ir # irs) @ ir_values (trace w)"
      unfolding eq ih(5,6) st(3,4) by simp_all
    ultimately show ?thesis by blast
  qed
qed

lemma fill_constant:
  assumes "\<And>e. sensor_available E e"
    and "\<And>e. fst (sensor_getRed E e) = r" and "\<And>e. fst (sensor_getIR E e) = q"
    and "i \<le> n" and "n \<le> length (redBuffer (glob w))" and "n \<le> length (irBuffer (glob w))"
  shows "redBuffer (glob (snd (fill E n i w))) =
           take i (redBuffer (glob w)) @ replicate (n - i) r @ drop n (redBuffer (glob w)) \<and>
         irBuffer (glob (snd (fill E n i w))) =
           take i (irBuffer (glob w)) @ replicate (n - i) q @ drop n (irBuffer (glob w))"
  using assms
proof (induction E n i w rule: fill.induct)
  case (1 E n i w)
  show ?case
  proof (cases "i < n")
    case False
    then have "fill E n i w = (True, w)"
      by (subst fill_unfold) simp
    moreover have "i = n"
      using False "1.prems"(4) by simp
    ultimately show ?thesis
      by simp
  next
    case True
    note lt = this
    have ok: "fst (fill_slot E i w)"
      by (simp add: fill_slot_fst "1.prems"(1))
    define w1 where "w1 = snd (fill_slot E i w)"
    have st: "redBuffer (glob w1) = (redBuffer (glob w))[i := r]"
      "irBuffer (glob w1) = (irBuffer (glob w))[i := q]"
      using fill_slot_stores(1,2) [OF ok] by (simp_all add: w1_def "1.prems"(2,3))
    have eq: "fill E n i w = fill E n (Suc i) w1"
      using lt ok by (subst fill_unfold) (simp add: w1_def)
    have len: "n \<le> length (redBuffer (glob w1))" "n \<le> length (irBuffer (glob w1))"
      using "1.prems"(5,6) by (simp_all add: st)
    have le: "Suc i \<le> n" using lt by simp
    note ih = "1.IH" [OF lt _ _ "1.prems"(1,2,3) le len, of "fst (fill_slot E i w)"]
    have li: "i < length (redBuffer (glob w))" "i < length (irBuffer (glob w))"
      using lt "1.prems"(5,6) by simp_all
    have t: "take (Suc i) ((redBuffer (glob w))[i := r]) = take i (redBuffer (glob w)) @ [r]"
      "take (Suc i) ((irBuffer (glob w))[i := q]) = take i (irBuffer (glob w)) @ [q]"
      using li by (simp_all add: take_Suc_conv_app_nth)
    have d: "drop n ((redBuffer (glob w))[i := r]) = drop n (redBuffer (glob w))"
      "drop n ((irBuffer (glob w))[i := q]) = drop n (irBuffer (glob w))"
      using lt by simp_all
    have n: "n - i = Suc (n - Suc i)"
      using lt by simp
    show ?thesis
      using ih ok unfolding eq st t d n
      by (simp add: w1_def prod_eq_iff)
  qed
qed

lemma poll_trace:
  "\<exists>k. k \<le> nat (100 - attempts) \<and>
     trace (poll E attempts w) =
       (clock w + 10 * k, EvSensorAvailable (sensor_available E (ext (poll E attempts w))))
         # rounds (clock w) k @ trace w \<and>
     clock (poll E attempts w) = clock w + 10 * k \<and>
     (\<not> sensor_available E (ext (poll E attempts w)) \<longrightarrow> k = nat (100 - attempts))"
proof (induction E attempts w rule: poll.induct)
  case (1 E attempts w)
  show ?case
  proof (cases "\<not> sensor_available E (ext w) \<and> attempts < 100")
    case True
    define w2 where
      "w2 = delay E 10 (call EvSensorCheck (sensor_check E)
              (emit (EvSensorAvailable (sensor_available E (ext w))) w))"
    have eq: "poll E attempts w = poll E (attempts + 1) w2"
      using True by (subst poll.simps) (simp add: w2_def Let_def)
    have c2: "clock w2 = clock w + 10"
      by (simp add: w2_def)
    have t2: "trace w2 = [(clock w, EvDelay 10), (clock w, EvSensorCheck),
                   (clock w, EvSensorAvailable False)] @ trace w"
      using True by (simp add: w2_def)
    note ih = "1.IH" [OF refl refl True, folded w2_def]
    then obtain k where k1: "k \<le> nat (100 - (attempts + 1))"
      and k2: "trace (poll E (attempts + 1) w2) =
         (clock w2 + 10 * k, EvSensorAvailable (sensor_available E (ext (poll E (attempts + 1) w2))))
           # rounds (clock w2) k @ trace w2"
      and k3: "clock (poll E (attempts + 1) w2) = clock w2 + 10 * k"
      and k4: "\<not> sensor_available E (ext (poll E (attempts + 1) w2)) \<longrightarrow>
           k = nat (100 - (attempts + 1))"
      by (elim exE conjE)
    have n: "nat (100 - attempts) = Suc (nat (100 - (attempts + 1)))"
      using True by arith
    have a: "Suc k \<le> nat (100 - attempts)"
      using k1 n by simp
    have b: "trace (poll E attempts w) =
       (clock w + 10 * Suc k, EvSensorAvailable (sensor_available E (ext (poll E attempts w))))
         # rounds (clock w) (Suc k) @ trace w"
      by (simp add: eq k2 c2 t2)
    have c: "clock (poll E attempts w) = clock w + 10 * Suc k"
      by (simp add: eq k3 c2)
    have d: "\<not> sensor_available E (ext (poll E attempts w)) \<longrightarrow> Suc k = nat (100 - attempts)"
      using k4 n by (simp add: eq)
    show ?thesis
      by (rule exI [of _ "Suc k"]) (intro conjI, rule a, rule b, rule c, rule d)
  next
    case False
    then have eq: "poll E attempts w = emit (EvSensorAvailable (sensor_available E (ext w))) w"
      by (subst poll_unfold) auto
    have a: "(0::nat) \<le> nat (100 - attempts)" by simp
    have b: "trace (poll E attempts w) =
       (clock w + 10 * 0, EvSensorAvailable (sensor_available E (ext (poll E attempts w))))
         # rounds (clock w) 0 @ trace w"
      by (simp add: eq)
    have c: "clock (poll E attempts w) = clock w + 10 * 0"
      by (simp add: eq)
    have d: "\<not> sensor_available E (ext (poll E attempts w)) \<longrightarrow> 0 = nat (100 - attempts)"
      using False by (auto simp: eq)
    show ?thesis
      by (rule exI [of _ 0]) (intro conjI, rule a, rule b, rule c, rule d)
  qed
qed

lemma readSensors_buffers:
  assumes "\<not> millis w - lastSensorRead (glob w) < SENSOR_READ_INTERVAL"
    and "fst (readSensors E w)"
    and "length (redBuffer (glob w)) = 100" and "length (irBuffer (glob w)) = 100"
  shows "length (redBuffer (glob (snd (readSensors E w)))) = 100"
    and "length (irBuffer (glob (snd (readSensors E w)))) = 100"
    and "red_values (trace (snd (readSensors E w))) =
           rev (redBuffer (glob (snd (readSensors E w)))) @ red_values (trace w)"
    and "ir_values (trace (snd (readSensors E w))) =
           rev (irBuffer (glob (snd (readSensors E w)))) @ ir_values (trace w)"
proof -
  define w2 where "w2 = acquisition_start w"
  define w3 where "w3 = snd (fill E BUFFER_SIZE 0 w2)"
  note rs = readSensors_open [OF assms(1), of E, folded w2_def, folded w3_def]
  have ok: "fst (fill E BUFFER_SIZE 0 w2)"
    using assms(2) by (simp add: rs Let_def split: if_splits)
  have w2: "redBuffer (glob w2) = redBuffer (glob w)" "irBuffer (glob w2) = irBuffer (glob w)"
    "red_values (trace w2) = red_values (trace w)" "ir_values (trace w2) = ir_values (trace w)"
    by (simp_all add: w2_def acquisition_start_def)
  have len: "BUFFER_SIZE \<le> length (redBuffer (glob w2))" "BUFFER_SIZE \<le> length (irBuffer (glob w2))"
    by (simp_all add: w2 assms(3,4) BUFFER_SIZE_def)
  from fill_stores [OF ok _ len] obtain rs' irs where st:
    "length rs' = BUFFER_SIZE - 0" "length irs = BUFFER_SIZE - 0"
    "redBuffer (glob w3) = take 0 (redBuffer (glob w2)) @ rs' @ drop BUFFER_SIZE (redBuffer (glob w2))"
    "irBuffer (glob w3) = take 0 (irBuffer (glob w2)) @ irs @ drop BUFFER_SIZE (irBuffer (glob w2))"
    "red_values (trace w3) = rev rs' @ red_values (trace w2)"
    "ir_values (trace w3) = rev irs @ ir_values (trace w2)"
    unfolding w3_def by auto
  have b: "redBuffer (glob w3) = rs'" "irBuffer (glob w3) = irs"
    using st(3,4) by (simp_all add: w2 assms(3,4) BUFFER_SIZE_def)
  have sel: "redBuffer (glob (snd (readSensors E w))) = redBuffer (glob w3)"
    "irBuffer (glob (snd (readSensors E w))) = irBuffer (glob w3)"
    "trace (snd (readSensors E w)) = (clock w3, EvEstimate) # trace w3"
    using ok by (simp_all add: rs Let_def)
  show "length (redBuffer (glob (snd (readSensors E w)))) = 100"
    and "length (irBuffer (glob (snd (readSensors E w)))) = 100"
    using st(1,2) by (simp_all add: sel b BUFFER_SIZE_def)
  show "red_values (trace (snd (readSensors E w))) =
           rev (redBuffer (glob (snd (readSensors E w)))) @ red_values (trace w)"
    and "ir_values (trace (snd (readSensors E w))) =
           rev (irBuffer (glob (snd (readSensors E w)))) @ ir_values (trace w)"
    by (simp_all add: sel b st(5,6) w2)
qed

lemma readSensors_constant:
  assumes "\<And>e. sensor_available E e"
    and "\<And>e. fst (sensor_getRed E e) = r" and "\<And>e. fst (sensor_getIR E e) = q"
    and "\<not> millis w - lastSensorRead (glob w) < SENSOR_READ_INTERVAL"
    and "length (redBuffer (glob w)) = 100" and "length (irBuffer (glob w)) = 100"
  shows "redBuffer (glob (snd (readSensors E w))) = replicate 100 r"
    and "irBuffer (glob (snd (readSensors E w))) = replicate 100 q"
proof -
  define w2 where "w2 = acquisition_start w"
  note rs = readSensors_open [OF assms(4), of E, folded w2_def]
  have ok: "fst (fill E BUFFER_SIZE 0 w2)"
    using fill_always [of E BUFFER_SIZE 0 w2] assms(1) by simp
  have w2: "redBuffer (glob w2) = redBuffer (glob w)" "irBuffer (glob w2) = irBuffer (glob w)"
    by (simp_all add: w2_def acquisition_start_def)
  have len: "BUFFER_SIZE \<le> length (redBuffer (glob w2))" "BUFFER_SIZE \<le> length (irBuffer (glob w2))"
    by (simp_all add: w2 assms(5,6) BUFFER_SIZE_def)
  have "(0::nat) \<le> BUFFER_SIZE" by simp
  note fc = fill_constant [of E r q 0 BUFFER_SIZE w2, OF assms(1,2,3) this len]
  show "redBuffer (glob (snd (readSensors E w))) = replicate 100 r"
    and "irBuffer (glob (snd (readSensors E w))) = replicate 100 q"
    using ok fc by (simp_all add: rs Let_def w2 assms(5,6) BUFFER_SIZE_def)
qed

lemma readSensors_outcome:
  "\<not> millis w - lastSensorRead (glob w) < SENSOR_READ_INTERVAL \<Longrightarrow>
   (fst (readSensors E w) \<longleftrightarrow>
      count_ev is_sample (snd (readSensors E w)) = count_ev is_sample w + 100) \<and>
   (\<not> fst (readSensors E w) \<longleftrightarrow>
      count_ev is_sample (snd (readSensors E w)) < count_ev is_sample w + 100) \<and>
   (if fst (readSensors E w)
    then (spo2 (glob (snd (readSensors E w))), validSPO2 (glob (snd (readSensors E w))),
          heartRate (glob (snd (readSensors E w))), validHeartRate (glob (snd (readSensors E w))))
           = estimator E (irBuffer (glob (snd (readSensors E w)))) 100
               (redBuffer (glob (snd (readSensors E w)))) \<and>
         count_ev is_estimate (snd (readSensors E w)) = count_ev is_estimate w + 1
    else (spo2 (glob (snd (readSensors E w))), validSPO2 (glob (snd (readSensors E w))),
          heartRate (glob (snd (readSensors E w))), validHeartRate (glob (snd (readSensors E w))))
           = (spo2 (glob w), validSPO2 (glob w), heartRate (glob w), validHeartRate (glob w)) \<and>
         count_ev is_estimate (snd (readSensors E w)) = count_ev is_estimate w)"
proof -
  assume gate: "\<not> millis w - lastSensorRead (glob w) < SENSOR_READ_INTERVAL"
  define w2 where "w2 = acquisition_start w"
  define ok where "ok = fst (fill E BUFFER_SIZE 0 w2)"
  define w3 where "w3 = snd (fill E BUFFER_SIZE 0 w2)"
  note rs = readSensors_open [OF gate, of E, folded w2_def, folded ok_def w3_def]
  have fst_rs: "fst (readSensors E w) = ok"
    by (simp add: rs Let_def)
  have w2: "count_ev is_sample w2 = count_ev is_sample w"
    "count_ev is_estimate w2 = count_ev is_estimate w"
    "spo2 (glob w2) = spo2 (glob w)" "validSPO2 (glob w2) = validSPO2 (glob w)"
    "heartRate (glob w2) = heartRate (glob w)" "validHeartRate (glob w2) = validHeartRate (glob w)"
    "bufferLength (glob w2) = 100"
    by (simp_all add: w2_def acquisition_start_def BUFFER_SIZE_def)
  have samples: "(ok \<longrightarrow> count_ev is_sample w3 = count_ev is_sample w + 100) \<and>
      (\<not> ok \<longrightarrow> count_ev is_sample w3 < count_ev is_sample w + 100)"
    using fill_count_sample [of E BUFFER_SIZE 0 w2]
    by (simp add: ok_def w3_def w2 BUFFER_SIZE_def)
  note frame = fill_frame [of E BUFFER_SIZE 0 w2, folded w3_def]
  show ?thesis
  proof (cases ok)
    case True
    then have snd_rs: "snd (readSensors E w) = emit EvEstimate
              (upd_glob (\<lambda>g. g\<lparr>spo2 := fst (estimator E (irBuffer g) (bufferLength g) (redBuffer g)),
                  validSPO2 := fst (snd (estimator E (irBuffer g) (bufferLength g) (redBuffer g))),
                  heartRate := fst (snd (snd (estimator E (irBuffer g) (bufferLength g) (redBuffer g)))),
                  validHeartRate :=
                    snd (snd (snd (estimator E (irBuffer g) (bufferLength g) (redBuffer g))))\<rparr>) w3)"
      by (simp add: rs Let_def)
    show ?thesis
      unfolding fst_rs snd_rs using True samples
      by (simp add: frame w2 prod_eq_iff)
  next
    case False
    then have snd_rs: "snd (readSensors E w) = w3"
      by (simp add: rs Let_def)
    show ?thesis
      unfolding fst_rs snd_rs using False samples
      by (simp add: frame w2)
  qed
qed

lemma rounds_count:
  "length (filter (\<lambda>x. is_check (snd x)) (rounds c k)) = k"
  "length (filter (\<lambda>x. snd x = EvDelay 10) (rounds c k)) = k"
  "length (filter (\<lambda>x. is_avail (snd x)) (rounds c k)) = k"
  by (induction k arbitrary: c) simp_all

lemma fill_split:
  assumes "fill E j i w = (True, u)" and "i \<le> j" and "j \<le> n"
  shows "fill E n i w = fill E n j u"
  using assms
proof (induction E j i w rule: fill.induct)
  case (1 E j i w)
  show ?case
  proof (cases "i < j")
    case False
    then have "fill E j i w = (True, w)"
      by (subst fill_unfold) simp
    with "1.prems" False show ?thesis by simp
  next
    case True
    have ok: "fst (fill_slot E i w)"
      using "1.prems"(1) True by (subst (asm) fill_unfold) (simp split: if_splits)
    have eq: "fill E j i w = fill E j (Suc i) (snd (fill_slot E i w))"
      using True ok by (subst fill_unfold) simp
    have "fill E n (Suc i) (snd (fill_slot E i w)) = fill E n j u"
      using "1.IH" [OF True, of "fst (fill_slot E i w)" "snd (fill_slot E i w)"]
        ok "1.prems" True
      by (simp add: eq prod_eq_iff)
    moreover have "fill E n i w = fill E n (Suc i) (snd (fill_slot E i w))"
      using True ok "1.prems"(3) by (subst fill_unfold) simp
    ultimately show ?thesis by simp
  qed
qed

lemma readSensors_timeout:
  assumes "\<not> millis v - lastSensorRead (glob v) < SENSOR_READ_INTERVAL"
    and "j < BUFFER_SIZE" and "fill E j 0 (acquisition_start v) = (True, u)"
    and "\<not> sensor_available E (ext (poll E 0 u))"
  shows "readSensors E v = (False, snd (fill_slot E j u))"
proof -
  have "fill E BUFFER_SIZE 0 (acquisition_start v) = fill E BUFFER_SIZE j u"
    using assms(2) by (intro fill_split [OF assms(3)]) simp_all
  also have "\<dots> = (False, snd (fill_slot E j u))"
    using assms(2,4) by (rule fill_timeout)
  finally show ?thesis
    by (simp add: readSensors_open [OF assms(1)] Let_def)
qed

lemma readSensors_count_check:
  "count_ev is_check (snd (readSensors E v)) \<le> count_ev is_check v + 100 * BUFFER_SIZE"
proof (cases "millis v - lastSensorRead (glob v) < SENSOR_READ_INTERVAL")
  case True
  then show ?thesis by (simp add: readSensors_closed)
next
  case False
  show ?thesis
    using fill_count_check [of E BUFFER_SIZE 0 "acquisition_start v"]
    by (simp add: readSensors_open [OF False] Let_def acquisition_start_def)
qed

lemma fill_slot_rounds:
  "\<exists>k. k \<le> 100 \<and>
     trace (poll E 0 w) =
       (clock w + 10 * k, EvSensorAvailable (sensor_available E (ext (poll E 0 w))))
         # rounds (clock w) k @ trace w \<and>
     clock (poll E 0 w) = clock w + 10 * k \<and>
     count_ev is_check (snd (fill_slot E i w)) = count_ev is_check w + k \<and>
     count_ev (\<lambda>ev. ev = EvDelay 10) (snd (fill_slot E i w))
       = count_ev (\<lambda>ev. ev = EvDelay 10) w + k \<and>
     (\<not> sensor_available E (ext (poll E 0 w)) \<longrightarrow> k = 100)"
proof -
  from poll_trace [of 0 E w] obtain k where k: "k \<le> 100"
    and t: "trace (poll E 0 w) =
       (clock w + 10 * k, EvSensorAvailable (sensor_available E (ext (poll E 0 w))))
         # rounds (clock w) k @ trace w"
    and c: "clock (poll E 0 w) = clock w + 10 * k"
    and full: "\<not> sensor_available E (ext (poll E 0 w)) \<longrightarrow> k = 100"
    by auto
  have p: "count_ev is_check (poll E 0 w) = count_ev is_check w + k"
    "count_ev (\<lambda>ev. ev = EvDelay 10) (poll E 0 w) = count_ev (\<lambda>ev. ev = EvDelay 10) w + k"
    by (simp_all add: count_ev_def t rounds_count)
  have s: "count_ev is_check (snd (fill_slot E i w)) = count_ev is_check (poll E 0 w)"
    "count_ev (\<lambda>ev. ev = EvDelay 10) (snd (fill_slot E i w))
       = count_ev (\<lambda>ev. ev = EvDelay 10) (poll E 0 w)"
    by (simp_all add: fill_slot_def Let_def split_beta)
  show ?thesis
    by (rule exI [of _ k]) (intro conjI, rule k, rule t, rule c, simp add: s p, simp add: s p, rule full)
qed

section \<open>The claims\<close>

text \<open>
  Claim C1. When the gate of \<open>readSensors\<close> passes, the call returns \<open>true\<close> exactly
  when the fill has taken 100 samples, and \<open>false\<close> exactly when it has taken fewer
  (the sensor timed out in some slot). In the first case the estimator is run once and
  its four outputs are stored in \<open>spo2\<close>, \<open>validSPO2\<close>, \<open>heartRate\<close>,
  \<open>validHeartRate\<close>; in the second it is not run and the four variables are as before.
  The buffer is really filled: a successful slot \<open>i\<close> stores in cell \<open>i\<close> of each
  buffer the value that \<open>getRed\<close>, respectively \<open>getIR\<close>, returned in that slot, and
  after a successful call the two buffers of 100 cells, on which the estimator was run,
  hold, in order, exactly the 100 values that \<open>getRed\<close> and \<open>getIR\<close> returned
  during the call. The witness shows both cases: a sensor that always has a sample (red
  1000, infrared 2000), and one that never has.
\<close>

theorem estimate_updated_iff_buffer_full:
  "\<not> millis w - lastSensorRead (glob w) < SENSOR_READ_INTERVAL \<Longrightarrow>
   (fst (readSensors E w) \<longleftrightarrow>
      count_ev is_sample (snd (readSensors E w)) = count_ev is_sample w + 100) \<and>
   (\<not> fst (readSensors E w) \<longleftrightarrow>
      count_ev is_sample (snd (readSensors E w)) < count_ev is_sample w + 100) \<and>
   (if fst (readSensors E w)
    then (spo2 (glob (snd (readSensors E w))), validSPO2 (glob (snd (readSensors E w))),
          heartRate (glob (snd (readSensors E w))), validHeartRate (glob (snd (readSensors E w))))
           = estimator E (irBuffer (glob (snd (readSensors E w)))) 100
               (redBuffer (glob (snd (readSensors E w)))) \<and>
         count_ev is_estimate (snd (readSensors E w)) = count_ev is_estimate w + 1
    else (spo2 (glob (snd (readSensors E w))), validSPO2 (glob (snd (readSensors E w))),
          heartRate (glob (snd (readSensors E w))), validHeartRate (glob (snd (readSensors E w))))
           = (spo2 (glob w), validSPO2 (glob w), heartRate (glob w), validHeartRate (glob w)) \<and>
         count_ev is_estimate (snd (readSensors E w)) = count_ev is_estimate w) \<and>
   (fst (readSensors E w) \<and>
    length (redBuffer (glob w)) = 100 \<and> length (irBuffer (glob w)) = 100 \<longrightarrow>
      length (redBuffer (glob (snd (readSensors E w)))) = 100 \<and>
      length (irBuffer (glob (snd (readSensors E w)))) = 100 \<and>
      red_values (trace (snd (readSensors E w))) =
        rev (redBuffer (glob (snd (readSensors E w)))) @ red_values (trace w) \<and>
      ir_values (trace (snd (readSensors E w))) =
        rev (irBuffer (glob (snd (readSensors E w)))) @ ir_values (trace w)) \<and>
   (fst (fill_slot E i v) \<longrightarrow>
      redBuffer (glob (snd (fill_slot E i v))) =
        (redBuffer (glob v))[i := fst (sensor_getRed E (ext (poll E 0 v)))] \<and>
      irBuffer (glob (snd (fill_slot E i v))) =
        (irBuffer (glob v))[i := fst (sensor_getIR E (snd (sensor_getRed E (ext (poll E 0 v)))))])"
proof -
  assume gate: "\<not> millis w - lastSensorRead (glob w) < SENSOR_READ_INTERVAL"
  note outcome = readSensors_outcome [OF gate, of E]
  have buffers: "length (redBuffer (glob (snd (readSensors E w)))) = 100 \<and>
      length (irBuffer (glob (snd (readSensors E w)))) = 100 \<and>
      red_values (trace (snd (readSensors E w))) =
        rev (redBuffer (glob (snd (readSensors E w)))) @ red_values (trace w) \<and>
      ir_values (trace (snd (readSensors E w))) =
        rev (irBuffer (glob (snd (readSensors E w)))) @ ir_values (trace w)"
    if "fst (readSensors E w)" "length (redBuffer (glob w)) = 100"
      "length (irBuffer (glob w)) = 100"
    using readSensors_buffers [OF gate that] by blast
  have slot: "redBuffer (glob (snd (fill_slot E i v))) =
        (redBuffer (glob v))[i := fst (sensor_getRed E (ext (poll E 0 v)))] \<and>
      irBuffer (glob (snd (fill_slot E i v))) =
        (irBuffer (glob v))[i := fst (sensor_getIR E (snd (sensor_getRed E (ext (poll E 0 v)))))]"
    if "fst (fill_slot E i v)"
    using fill_slot_stores(1,2) [OF that] by blast
  show ?thesis
    using outcome buffers slot by blast
qed

theorem estimate_updated_iff_buffer_full_witness:
  "\<not> millis (boot 5000 () :: (unit, real) world)
       - lastSensorRead (glob (boot 5000 () :: (unit, real) world)) < SENSOR_READ_INTERVAL \<and>
   length (redBuffer (glob (boot 5000 () :: (unit, real) world))) = 100 \<and>
   length (irBuffer (glob (boot 5000 () :: (unit, real) world))) = 100 \<and>
   fst (readSensors (sim_env True True 200) (boot 5000 ())) \<and>
   count_ev is_sample (snd (readSensors (sim_env True True 200) (boot 5000 ()))) = 100 \<and>
   spo2 (glob (snd (readSensors (sim_env True True 200) (boot 5000 ())))) = 98 \<and>
   validSPO2 (glob (snd (readSensors (sim_env True True 200) (boot 5000 ())))) = 1 \<and>
   heartRate (glob (snd (readSensors (sim_env True True 200) (boot 5000 ())))) = 72 \<and>
   validHeartRate (glob (snd (readSensors (sim_env True True 200) (boot 5000 ())))) = 1 \<and>
   redBuffer (glob (snd (readSensors (sim_env True True 200) (boot 5000 ())))) = replicate 100 1000 \<and>
   irBuffer (glob (snd (readSensors (sim_env True True 200) (boot 5000 ())))) = replicate 100 2000 \<and>
   red_values (trace (snd (readSensors (sim_env True True 200) (boot 5000 ())))) = replicate 100 1000 \<and>
   ir_values (trace (snd (readSensors (sim_env True True 200) (boot 5000 ())))) = replicate 100 2000 \<and>
   \<not> fst (readSensors (sim_env False True 200) (boot 5000 ())) \<and>
   count_ev is_sample (snd (readSensors (sim_env False True 200) (boot 5000 ()))) < 100 \<and>
   validSPO2 (glob (snd (readSensors (sim_env False True 200) (boot 5000 ())))) = 0 \<and>
   validHeartRate (glob (snd (readSensors (sim_env False True 200) (boot 5000 ())))) = 0"
proof -
  let ?w = "boot 5000 () :: (unit, real) world"
  let ?E = "sim_env True True 200"
  note gate = gate_boot_5000 [of "()", where ?'t = real]
  have len: "length (redBuffer (glob ?w)) = 100" "length (irBuffer (glob ?w)) = 100"
    by (simp_all add: zero_globals_def BUFFER_SIZE_def)
  have yes: "fst (readSensors ?E ?w)"
    using fill_always [of ?E BUFFER_SIZE 0 "acquisition_start ?w"]
    by (simp add: readSensors_open [OF gate] Let_def)
  have "fill (sim_env False True 200) BUFFER_SIZE 0 (acquisition_start ?w) =
      (False, snd (fill_slot (sim_env False True 200) 0 (acquisition_start ?w)))"
    by (rule fill_timeout) (simp_all add: BUFFER_SIZE_def)
  then have no: "\<not> fst (readSensors (sim_env False True 200) ?w)"
    by (simp add: readSensors_open [OF gate] Let_def)
  have bufs: "redBuffer (glob (snd (readSensors ?E ?w))) = replicate 100 1000"
    "irBuffer (glob (snd (readSensors ?E ?w))) = replicate 100 2000"
    by (rule readSensors_constant [OF _ _ _ gate len]; simp)+
  note T = estimate_updated_iff_buffer_full [OF gate, of ?E]
  note F = estimate_updated_iff_buffer_full [OF gate, of "sim_env False True 200"]
  from T yes len
  have vals: "red_values (trace (snd (readSensors ?E ?w))) =
        rev (redBuffer (glob (snd (readSensors ?E ?w)))) @ red_values (trace ?w)"
    "ir_values (trace (snd (readSensors ?E ?w))) =
        rev (irBuffer (glob (snd (readSensors ?E ?w)))) @ ir_values (trace ?w)"
    by blast+
  from T yes
  have est: "count_ev is_sample (snd (readSensors ?E ?w)) = count_ev is_sample ?w + 100"
    "(spo2 (glob (snd (readSensors ?E ?w))), validSPO2 (glob (snd (readSensors ?E ?w))),
      heartRate (glob (snd (readSensors ?E ?w))), validHeartRate (glob (snd (readSensors ?E ?w))))
       = estimator ?E (irBuffer (glob (snd (readSensors ?E ?w)))) 100
           (redBuffer (glob (snd (readSensors ?E ?w))))"
    by simp_all
  from F no
  have un: "count_ev is_sample (snd (readSensors (sim_env False True 200) ?w))
        < count_ev is_sample ?w + 100"
    "(spo2 (glob (snd (readSensors (sim_env False True 200) ?w))),
      validSPO2 (glob (snd (readSensors (sim_env False True 200) ?w))),
      heartRate (glob (snd (readSensors (sim_env False True 200) ?w))),
      validHeartRate (glob (snd (readSensors (sim_env False True 200) ?w))))
       = (spo2 (glob ?w), validSPO2 (glob ?w), heartRate (glob ?w), validHeartRate (glob ?w))"
    by simp_all
  show ?thesis
    using gate len yes no est un vals
    by (simp add: bufs zero_globals_def)
qed

text \<open>
  Claim C2. Every document that \<open>sendDataToBackend\<close> posts carries under
  \<open>heart_rate\<close> the number 0 when \<open>validHeartRate\<close> is false (zero) and the
  estimator's \<open>heartRate\<close> otherwise, and under \<open>spo2\<close> the number 0 when
  \<open>validSPO2\<close> is false and the estimator's \<open>spo2\<close> otherwise. With the link up
  at least one document is posted.
\<close>

theorem invalid_estimate_reported_as_zero:
  "(wifi_status E (ext w) \<longrightarrow> sent_docs E w \<noteq> []) \<and>
   list_all
     (\<lambda>d. map_of d ''heart_rate'' =
             Some (JInt (if validHeartRate (glob w) = 0 then 0 else sint (heartRate (glob w)))) \<and>
           map_of d ''spo2'' =
             Some (JInt (if validSPO2 (glob w) = 0 then 0 else sint (spo2 (glob w)))))
     (sent_docs E w)"
proof -
  have "list_all (\<lambda>d. d = fst (build_payload E w)) (sent_docs E w)"
    by (rule sent_docs_all)
  then have "list_all
     (\<lambda>d. map_of d ''heart_rate'' =
             Some (JInt (if validHeartRate (glob w) = 0 then 0 else sint (heartRate (glob w)))) \<and>
           map_of d ''spo2'' =
             Some (JInt (if validSPO2 (glob w) = 0 then 0 else sint (spo2 (glob w)))))
     (sent_docs E w)"
    by (rule list.pred_mono_strong) (simp add: build_payload_fst)
  then show ?thesis
    by (simp add: sent_docs_nonempty)
qed

theorem invalid_estimate_reported_as_zero_witness:
  "wifi_status (sim_env True True 200) (ext (boot 5000 () :: (unit, real) world)) \<and>
   sent_docs (sim_env True True 200) (boot 5000 ()) \<noteq> [] \<and>
   list_all (\<lambda>d. map_of d ''heart_rate'' = Some (JInt 0) \<and> map_of d ''spo2'' = Some (JInt 0))
     (sent_docs (sim_env True True 200) (boot 5000 ()))"
  using invalid_estimate_reported_as_zero [of "sim_env True True 200" "boot 5000 ()"]
  by (simp add: zero_globals_def)



text \<open>
  Claim C4. One call of \<open>sendDataToBackend\<close> makes at most \<open>maxRetries = 3\<close> POSTs.
  When the link is up and the first three POSTs all fail transiently, the call does
  exactly this: POST, \<open>delay(2000)\<close>, POST, \<open>delay(2000)\<close>, POST, \<open>http.end()\<close>.
  There are exactly three attempts, two seconds of waiting between consecutive attempts,
  none after the last, and the call returns with the globals as they were: the record is
  kept nowhere. The witness answers every POST with the transport error \<open>-1\<close>.
\<close>

theorem retry_at_most_three:
  "count_ev is_post (sendDataToBackend E w) \<le> count_ev is_post w + 3 \<and>
   (wifi_status E (ext w) \<and>
    http_POST E (fst (build_payload E w)) (snd (mlx_readObjectTempC E (ext w))) = (c1, e1) \<and>
    transient c1 \<and>
    http_POST E (fst (build_payload E w)) (elapse E 2000 e1) = (c2, e2) \<and> transient c2 \<and>
    http_POST E (fst (build_payload E w)) (elapse E 2000 e2) = (c3, e3) \<and> transient c3 \<longrightarrow>
    since w (sendDataToBackend E w) =
      [(clock w + 4000, EvHttpEnd),
       (clock w + 4000, EvHttpPOST (fst (build_payload E w)) c3),
       (clock w + 2000, EvDelay 2000),
       (clock w + 2000, EvHttpPOST (fst (build_payload E w)) c2),
       (clock w, EvDelay 2000),
       (clock w, EvHttpPOST (fst (build_payload E w)) c1),
       (clock w, EvGetLocalTime),
       (clock w, EvReadObjectTempC (fst (mlx_readObjectTempC E (ext w)))),
       (clock w, EvHttpBegin),
       (clock w, EvWiFiStatus True)] \<and>
    count_ev is_post (sendDataToBackend E w) = count_ev is_post w + 3 \<and>
    glob (sendDataToBackend E w) = glob w)"
proof (intro conjI impI)
  show "count_ev is_post (sendDataToBackend E w) \<le> count_ev is_post w + 3"
    by (rule send_count_post)
next
  define p where "p = fst (build_payload E w)"
  define w2 where "w2 = snd (build_payload E (emit EvHttpBegin (emit (EvWiFiStatus True) w)))"
  assume h: "wifi_status E (ext w) \<and>
    http_POST E (fst (build_payload E w)) (snd (mlx_readObjectTempC E (ext w))) = (c1, e1) \<and>
    transient c1 \<and>
    http_POST E (fst (build_payload E w)) (elapse E 2000 e1) = (c2, e2) \<and> transient c2 \<and>
    http_POST E (fst (build_payload E w)) (elapse E 2000 e2) = (c3, e3) \<and> transient c3"
  have w2: "ext w2 = snd (mlx_readObjectTempC E (ext w))" "clock w2 = clock w" "glob w2 = glob w"
    "trace w2 = [(clock w, EvGetLocalTime),
       (clock w, EvReadObjectTempC (fst (mlx_readObjectTempC E (ext w)))),
       (clock w, EvHttpBegin), (clock w, EvWiFiStatus True)] @ trace w"
    by (simp_all add: w2_def build_payload_snd)
  have send: "sendDataToBackend E w = emit EvHttpEnd (post_loop E p 0 w2)"
    using h by (simp add: send_up p_def w2_def)
  note three = post_loop_three_transient [of E p w2 c1 e1 c2 e2 c3 e3]
  have pre: "http_POST E p (ext w2) = (c1, e1)" "transient c1"
    "http_POST E p (elapse E 2000 e1) = (c2, e2)" "transient c2"
    "http_POST E p (elapse E 2000 e2) = (c3, e3)" "transient c3"
    using h by (simp_all add: p_def w2)
  have tr: "trace (sendDataToBackend E w) =
      [(clock w + 4000, EvHttpEnd), (clock w + 4000, EvHttpPOST p c3),
       (clock w + 2000, EvDelay 2000), (clock w + 2000, EvHttpPOST p c2),
       (clock w, EvDelay 2000), (clock w, EvHttpPOST p c1),
       (clock w, EvGetLocalTime),
       (clock w, EvReadObjectTempC (fst (mlx_readObjectTempC E (ext w)))),
       (clock w, EvHttpBegin), (clock w, EvWiFiStatus True)] @ trace w"
    unfolding send by (simp add: three [OF pre] w2)
  from since_append [OF tr]
  show "since w (sendDataToBackend E w) =
      [(clock w + 4000, EvHttpEnd),
       (clock w + 4000, EvHttpPOST (fst (build_payload E w)) c3),
       (clock w + 2000, EvDelay 2000),
       (clock w + 2000, EvHttpPOST (fst (build_payload E w)) c2),
       (clock w, EvDelay 2000),
       (clock w, EvHttpPOST (fst (build_payload E w)) c1),
       (clock w, EvGetLocalTime),
       (clock w, EvReadObjectTempC (fst (mlx_readObjectTempC E (ext w)))),
       (clock w, EvHttpBegin),
       (clock w, EvWiFiStatus True)]"
    by (simp add: p_def)
  show "count_ev is_post (sendDataToBackend E w) = count_ev is_post w + 3"
    by (simp add: count_ev_def tr)
  show "glob (sendDataToBackend E w) = glob w"
    unfolding send by (simp add: three [OF pre] w2)
qed

theorem retry_at_most_three_witness:
  "wifi_status (sim_env True True (- 1)) (ext (boot 5000 () :: (unit, real) world)) \<and>
   transient (- 1) \<and>
   count_ev is_post (sendDataToBackend (sim_env True True (- 1)) (boot 5000 ())) = 3 \<and>
   map snd (since (boot 5000 ()) (sendDataToBackend (sim_env True True (- 1)) (boot 5000 ()))) =
     [EvHttpEnd,
      EvHttpPOST (fst (build_payload (sim_env True True (- 1)) (boot 5000 ()))) (- 1),
      EvDelay 2000,
      EvHttpPOST (fst (build_payload (sim_env True True (- 1)) (boot 5000 ()))) (- 1),
      EvDelay 2000,
      EvHttpPOST (fst (build_payload (sim_env True True (- 1)) (boot 5000 ()))) (- 1),
      EvGetLocalTime, EvReadObjectTempC 36.5, EvHttpBegin, EvWiFiStatus True]"
proof -
  let ?E = "sim_env True True (- 1)"
  let ?w = "boot 5000 () :: (unit, real) world"
  have up: "wifi_status ?E (ext ?w)" by simp
  have t: "transient (- 1)" by (simp add: transient_def)
  have post: "http_POST ?E d e = (- 1, ())" for d e
    by simp
  from retry_at_most_three [of ?E ?w "- 1" "()" "- 1" "()" "- 1" "()"] up t post
  have "since ?w (sendDataToBackend ?E ?w) =
      [(clock ?w + 4000, EvHttpEnd),
       (clock ?w + 4000, EvHttpPOST (fst (build_payload ?E ?w)) (- 1)),
       (clock ?w + 2000, EvDelay 2000),
       (clock ?w + 2000, EvHttpPOST (fst (build_payload ?E ?w)) (- 1)),
       (clock ?w, EvDelay 2000),
       (clock ?w, EvHttpPOST (fst (build_payload ?E ?w)) (- 1)),
       (clock ?w, EvGetLocalTime),
       (clock ?w, EvReadObjectTempC (fst (mlx_readObjectTempC ?E (ext ?w)))),
       (clock ?w, EvHttpBegin),
       (clock ?w, EvWiFiStatus True)]"
    and "count_ev is_post (sendDataToBackend ?E ?w) = count_ev is_post ?w + 3"
    by blast+
  then show ?thesis
    using up t by simp
qed

text \<open>
  Claim C5. Whenever an attempt is answered by 301 or 302, at any value of
  \<open>retryCount\<close> below \<open>maxRetries\<close>, the retry loop ends with this attempt: its trace
  is the one POST and the clock has not moved. In particular, when the first answer is
  301 or 302 the call of \<open>sendDataToBackend\<close> makes exactly one POST, performs no
  \<open>delay\<close>, and returns with the globals as they were.
\<close>

theorem redirect_stops_immediately:
  "(retryCount < maxRetries \<and> (c = 301 \<or> c = 302) \<and> http_POST E p (ext w) = (c, e') \<longrightarrow>
      trace (post_loop E p retryCount w) = (clock w, EvHttpPOST p c) # trace w \<and>
      clock (post_loop E p retryCount w) = clock w \<and>
      glob (post_loop E p retryCount w) = glob w) \<and>
   (wifi_status E (ext w) \<and> (c = 301 \<or> c = 302) \<and>
    http_POST E (fst (build_payload E w)) (snd (mlx_readObjectTempC E (ext w))) = (c, e') \<longrightarrow>
      since w (sendDataToBackend E w) =
        [(clock w, EvHttpEnd),
         (clock w, EvHttpPOST (fst (build_payload E w)) c),
         (clock w, EvGetLocalTime),
         (clock w, EvReadObjectTempC (fst (mlx_readObjectTempC E (ext w)))),
         (clock w, EvHttpBegin),
         (clock w, EvWiFiStatus True)] \<and>
      count_ev is_post (sendDataToBackend E w) = count_ev is_post w + 1 \<and>
      count_ev (\<lambda>ev. ev = EvDelay 2000) (sendDataToBackend E w)
        = count_ev (\<lambda>ev. ev = EvDelay 2000) w \<and>
      clock (sendDataToBackend E w) = clock w \<and>
      glob (sendDataToBackend E w) = glob w)"
proof (intro conjI impI)
  assume h: "retryCount < maxRetries \<and> (c = 301 \<or> c = 302) \<and> http_POST E p (ext w) = (c, e')"
  then have eq: "post_loop E p retryCount w = snd (call_val (EvHttpPOST p) (http_POST E p) w)"
    by (intro post_loop_stop) auto
  show "trace (post_loop E p retryCount w) = (clock w, EvHttpPOST p c) # trace w"
    "clock (post_loop E p retryCount w) = clock w"
    "glob (post_loop E p retryCount w) = glob w"
    using h by (simp_all add: eq)
next
  define q where "q = fst (build_payload E w)"
  define w2 where "w2 = snd (build_payload E (emit EvHttpBegin (emit (EvWiFiStatus True) w)))"
  assume h: "wifi_status E (ext w) \<and> (c = 301 \<or> c = 302) \<and>
    http_POST E (fst (build_payload E w)) (snd (mlx_readObjectTempC E (ext w))) = (c, e')"
  have w2: "ext w2 = snd (mlx_readObjectTempC E (ext w))" "clock w2 = clock w" "glob w2 = glob w"
    "trace w2 = [(clock w, EvGetLocalTime),
       (clock w, EvReadObjectTempC (fst (mlx_readObjectTempC E (ext w)))),
       (clock w, EvHttpBegin), (clock w, EvWiFiStatus True)] @ trace w"
    by (simp_all add: w2_def build_payload_snd)
  have post': "http_POST E q (snd (mlx_readObjectTempC E (ext w))) = (c, e')"
    using h by (simp add: q_def)
  then have post: "http_POST E q (ext w2) = (c, e')"
    by (simp add: w2)
  have "0 < maxRetries" by (simp add: maxRetries_def)
  then have "post_loop E q 0 w2 = snd (call_val (EvHttpPOST q) (http_POST E q) w2)"
    using h post by (intro post_loop_stop) auto
  then have send: "sendDataToBackend E w =
      emit EvHttpEnd (snd (call_val (EvHttpPOST q) (http_POST E q) w2))"
    using h by (simp add: send_up q_def w2_def)
  have tr: "trace (sendDataToBackend E w) =
      [(clock w, EvHttpEnd), (clock w, EvHttpPOST q c), (clock w, EvGetLocalTime),
       (clock w, EvReadObjectTempC (fst (mlx_readObjectTempC E (ext w)))),
       (clock w, EvHttpBegin), (clock w, EvWiFiStatus True)] @ trace w"
    unfolding send by (simp add: w2 post')
  from since_append [OF tr]
  show "since w (sendDataToBackend E w) =
        [(clock w, EvHttpEnd),
         (clock w, EvHttpPOST (fst (build_payload E w)) c),
         (clock w, EvGetLocalTime),
         (clock w, EvReadObjectTempC (fst (mlx_readObjectTempC E (ext w)))),
         (clock w, EvHttpBegin),
         (clock w, EvWiFiStatus True)]"
    by (simp add: q_def)
  show "count_ev is_post (sendDataToBackend E w) = count_ev is_post w + 1"
    by (simp add: count_ev_def tr)
  show "count_ev (\<lambda>ev. ev = EvDelay 2000) (sendDataToBackend E w)
        = count_ev (\<lambda>ev. ev = EvDelay 2000) w"
    by (simp add: count_ev_def tr)
  show "clock (sendDataToBackend E w) = clock w" "glob (sendDataToBackend E w) = glob w"
    unfolding send by (simp_all add: w2)
qed

theorem redirect_stops_immediately_witness:
  "wifi_status (sim_env True True 302) (ext (boot 5000 () :: (unit, real) world)) \<and>
   http_POST (sim_env True True 302)
     (fst (build_payload (sim_env True True 302) (boot 5000 ()))) () = (302, ()) \<and>
   map snd (since (boot 5000 ()) (sendDataToBackend (sim_env True True 302) (boot 5000 ()))) =
     [EvHttpEnd, EvHttpPOST (fst (build_payload (sim_env True True 302) (boot 5000 ()))) 302,
      EvGetLocalTime, EvReadObjectTempC 36.5, EvHttpBegin, EvWiFiStatus True] \<and>
   count_ev is_post (sendDataToBackend (sim_env True True 302) (boot 5000 ())) = 1 \<and>
   clock (sendDataToBackend (sim_env True True 302) (boot 5000 ())) = 5000 \<and>
   2 < maxRetries \<and>
   trace (post_loop (sim_env True True 302) [] 2 (boot 5000 ())) = [(5000, EvHttpPOST [] 302)] \<and>
   clock (post_loop (sim_env True True 302) [] 2 (boot 5000 ())) = 5000"
proof -
  let ?E = "sim_env True True 302"
  let ?w = "boot 5000 () :: (unit, real) world"
  have h: "wifi_status ?E (ext ?w) \<and> ((302 :: int) = 301 \<or> (302 :: int) = 302) \<and>
    http_POST ?E (fst (build_payload ?E ?w)) (snd (mlx_readObjectTempC ?E (ext ?w))) = (302, ())"
    by simp
  have k: "2 < maxRetries \<and> ((302 :: int) = 301 \<or> (302 :: int) = 302) \<and>
    http_POST ?E [] (ext ?w) = (302, ())"
    by (simp add: maxRetries_def)
  from redirect_stops_immediately [where E = ?E and w = ?w and c = 302 and e' = "()"] h
  have "since ?w (sendDataToBackend ?E ?w) =
        [(clock ?w, EvHttpEnd),
         (clock ?w, EvHttpPOST (fst (build_payload ?E ?w)) 302),
         (clock ?w, EvGetLocalTime),
         (clock ?w, EvReadObjectTempC (fst (mlx_readObjectTempC ?E (ext ?w)))),
         (clock ?w, EvHttpBegin),
         (clock ?w, EvWiFiStatus True)]"
    and "count_ev is_post (sendDataToBackend ?E ?w) = count_ev is_post ?w + 1"
    and "clock (sendDataToBackend ?E ?w) = clock ?w"
    by blast+
  moreover
  from redirect_stops_immediately
    [where E = ?E and w = ?w and c = 302 and e' = "()" and retryCount = 2 and p = "[]"] k
  have "trace (post_loop ?E [] 2 ?w) = (clock ?w, EvHttpPOST [] 302) # trace ?w"
    and "clock (post_loop ?E [] 2 ?w) = clock ?w"
    by blast+
  ultimately show ?thesis using k by simp
qed

text \<open>
  Claim C6. When \<open>sendDataToBackend\<close> finds no network association, the call is the
  call of \<open>connectWiFi\<close>, made at once: after the link test the next event is
  \<open>WiFi.begin\<close> for the first network, every event of the call belongs to the
  reconnection, no document is posted, and the call returns with the globals as they
  were, so nothing of this record is kept.
\<close>

theorem link_down_reconnects_without_sending:
  "\<not> wifi_status E (ext w) \<Longrightarrow>
   sendDataToBackend E w = connectWiFi E (emit (EvWiFiStatus False) w) \<and>
   take 2 (rev (since w (sendDataToBackend E w))) =
     [(clock w, EvWiFiStatus False), (clock w, EvWiFiBegin 0)] \<and>
   list_all (\<lambda>x. is_wifi_ev (snd x)) (since w (sendDataToBackend E w)) \<and>
   sent_docs E w = [] \<and>
   count_ev is_post (sendDataToBackend E w) = count_ev is_post w \<and>
   glob (sendDataToBackend E w) = glob w"
proof -
  assume down: "\<not> wifi_status E (ext w)"
  from send_down_trace [OF down] obtain evs where
    tr: "trace (sendDataToBackend E w) =
           (evs @ [(clock w, EvWiFiBegin 0), (clock w, EvWiFiStatus False)]) @ trace w"
    and evs: "list_all (\<lambda>x. is_wifi_ev (snd x)) evs"
    by auto
  have si: "since w (sendDataToBackend E w) =
      evs @ [(clock w, EvWiFiBegin 0), (clock w, EvWiFiStatus False)]"
    by (rule since_append [OF tr])
  have no_post: "list_all (\<lambda>x. \<not> is_post (snd x)) (since w (sendDataToBackend E w))"
    unfolding si using evs by (auto simp: list_all_iff wifi_ev_not_post)
  have "count_ev is_post (sendDataToBackend E w) = count_ev is_post w"
    by (rule steps_count [OF send_down_steps [OF down]]) (auto elim: is_wifi_ev.elims)
  moreover have "glob (sendDataToBackend E w) = glob w"
    using send_down_steps [OF down] by (simp add: steps_def)
  moreover have "sent_docs E w = []"
    unfolding sent_docs_def by (rule posted_none [OF no_post])
  moreover have "list_all (\<lambda>x. is_wifi_ev (snd x)) (since w (sendDataToBackend E w))"
    unfolding si using evs by simp
  moreover have "take 2 (rev (since w (sendDataToBackend E w))) =
     [(clock w, EvWiFiStatus False), (clock w, EvWiFiBegin 0)]"
    unfolding si by simp
  ultimately show ?thesis
    using send_down [OF down] by simp
qed

theorem link_down_reconnects_without_sending_witness:
  "\<not> wifi_status (sim_env True False 200) (ext (boot 5000 () :: (unit, real) world)) \<and>
   take 2 (rev (since (boot 5000 ()) (sendDataToBackend (sim_env True False 200) (boot 5000 ())))) =
     [(5000, EvWiFiStatus False), (5000, EvWiFiBegin 0)] \<and>
   sent_docs (sim_env True False 200) (boot 5000 ()) = [] \<and>
   count_ev is_post (sendDataToBackend (sim_env True False 200) (boot 5000 ())) = 0"
proof -
  let ?E = "sim_env True False 200"
  let ?w = "boot 5000 () :: (unit, real) world"
  have down: "\<not> wifi_status ?E (ext ?w)" by simp
  from link_down_reconnects_without_sending [OF down]
  have "take 2 (rev (since ?w (sendDataToBackend ?E ?w))) =
          [(clock ?w, EvWiFiStatus False), (clock ?w, EvWiFiBegin 0)]"
    and "sent_docs ?E ?w = []"
    and "count_ev is_post (sendDataToBackend ?E ?w) = count_ev is_post ?w"
    by blast+
  then show ?thesis using down by simp
qed

text \<open>
  Claim C7. With the link up, \<open>sendDataToBackend\<close> posts at least one document; every
  document it posts has exactly the members \<open>device_id\<close>, \<open>heart_rate\<close>, \<open>spo2\<close>,
  \<open>temp_skin\<close>, \<open>timestamp\<close>, in this order, with \<open>device_id\<close> the constant 1 and
  \<open>temp_skin\<close> the temperature read during this very call. When the estimate is
  (72, valid, 98, valid) and the temperature reads \<open>T\<close>, the document starts with
  \<open>device_id\<close> 1, \<open>heart_rate\<close> 72, \<open>spo2\<close> 98, \<open>temp_skin\<close> \<open>T\<close>.
  The witness is the scenario of the specification, \<open>T = 36.5\<close>.
\<close>

theorem payload_fields:
  "wifi_status E (ext w) \<Longrightarrow>
   sent_docs E w \<noteq> [] \<and>
   list_all
     (\<lambda>d. map fst d = [''device_id'', ''heart_rate'', ''spo2'', ''temp_skin'', ''timestamp''] \<and>
           map_of d ''device_id'' = Some (JInt 1) \<and>
           map_of d ''temp_skin'' = Some (JFloat (fst (mlx_readObjectTempC E (ext w)))))
     (sent_docs E w) \<and>
   (clock w, EvReadObjectTempC (fst (mlx_readObjectTempC E (ext w))))
     \<in> set (since w (sendDataToBackend E w)) \<and>
   (validHeartRate (glob w) \<noteq> 0 \<and> sint (heartRate (glob w)) = 72 \<and>
    validSPO2 (glob w) \<noteq> 0 \<and> sint (spo2 (glob w)) = 98 \<and>
    fst (mlx_readObjectTempC E (ext w)) = T \<longrightarrow>
    list_all
      (\<lambda>d. take 4 d = [(''device_id'', JInt 1), (''heart_rate'', JInt 72), (''spo2'', JInt 98),
                        (''temp_skin'', JFloat T)])
      (sent_docs E w))"
proof -
  assume up: "wifi_status E (ext w)"
  have all: "list_all (\<lambda>d. d = fst (build_payload E w)) (sent_docs E w)"
    by (rule sent_docs_all)
  have fields: "list_all
     (\<lambda>d. map fst d = [''device_id'', ''heart_rate'', ''spo2'', ''temp_skin'', ''timestamp''] \<and>
           map_of d ''device_id'' = Some (JInt 1) \<and>
           map_of d ''temp_skin'' = Some (JFloat (fst (mlx_readObjectTempC E (ext w)))))
     (sent_docs E w)"
    using all by (rule list.pred_mono_strong) (simp add: build_payload_fst)
  have scenario: "list_all
      (\<lambda>d. take 4 d = [(''device_id'', JInt 1), (''heart_rate'', JInt 72), (''spo2'', JInt 98),
                        (''temp_skin'', JFloat T)])
      (sent_docs E w)"
    if "validHeartRate (glob w) \<noteq> 0" "sint (heartRate (glob w)) = 72"
       "validSPO2 (glob w) \<noteq> 0" "sint (spo2 (glob w)) = 98"
       "fst (mlx_readObjectTempC E (ext w)) = T"
    using all by (rule list.pred_mono_strong) (simp add: build_payload_fst that)
  from send_up_trace [OF up] obtain evs c x where
    "trace (sendDataToBackend E w) = ((c, EvHttpEnd) # evs @
       [(clock w, EvHttpPOST (fst (build_payload E w)) x), (clock w, EvGetLocalTime),
        (clock w, EvReadObjectTempC (fst (mlx_readObjectTempC E (ext w)))),
        (clock w, EvHttpBegin), (clock w, EvWiFiStatus True)]) @ trace w"
    by auto
  from since_append [OF this]
  have fresh: "(clock w, EvReadObjectTempC (fst (mlx_readObjectTempC E (ext w))))
     \<in> set (since w (sendDataToBackend E w))"
    by simp
  show ?thesis
    using sent_docs_nonempty [OF up] fields fresh scenario by blast
qed

theorem payload_fields_witness:
  "wifi_status (sim_env True True 200) (ext est_world) \<and>
   validHeartRate (glob est_world) \<noteq> 0 \<and> sint (heartRate (glob est_world)) = 72 \<and>
   validSPO2 (glob est_world) \<noteq> 0 \<and> sint (spo2 (glob est_world)) = 98 \<and>
   fst (mlx_readObjectTempC (sim_env True True 200) (ext est_world)) = 36.5 \<and>
   sent_docs (sim_env True True 200) est_world \<noteq> [] \<and>
   list_all
     (\<lambda>d. take 4 d = [(''device_id'', JInt 1), (''heart_rate'', JInt 72), (''spo2'', JInt 98),
                       (''temp_skin'', JFloat 36.5)])
     (sent_docs (sim_env True True 200) est_world) \<and>
   sent_docs (sim_env True True 200) est_world =
     [[(''device_id'', JInt 1), (''heart_rate'', JInt 72), (''spo2'', JInt 98),
       (''temp_skin'', JFloat 36.5), (''timestamp'', JString ''2025-01-01T00:00:00'')]]"
  using payload_fields [OF est_world_simps(5), of "36.5"] est_world_simps sent_docs_example
  by blast

text \<open>
  Claim C8. In one slot of the fill the sensor is polled at most 100 times: the polling
  loop makes some number \<open>k \<le> 100\<close> of rounds, each one a failed availability test
  followed by \<open>check()\<close> and \<open>delay(10)\<close>, so that consecutive attempts are 10 ms apart and
  the loop ends \<open>10 * k\<close> ms after it began. If the sensor is still not available at the
  end, all 100 rounds have been made, the slot fails, and \<open>readSensors\<close> returns \<open>false\<close>
  at that point, in whichever slot \<open>j\<close> this happens. A whole call of \<open>readSensors\<close>
  makes at most \<open>100 * 100\<close> polls, and it always returns, being a total function.
\<close>

theorem poll_budget_per_slot:
  "(\<exists>k. k \<le> 100 \<and>
      trace (poll E 0 w) =
        (clock w + 10 * k, EvSensorAvailable (sensor_available E (ext (poll E 0 w))))
          # rounds (clock w) k @ trace w \<and>
      clock (poll E 0 w) = clock w + 10 * k \<and>
      count_ev is_check (snd (fill_slot E i w)) = count_ev is_check w + k \<and>
      count_ev (\<lambda>ev. ev = EvDelay 10) (snd (fill_slot E i w))
        = count_ev (\<lambda>ev. ev = EvDelay 10) w + k \<and>
      (\<not> sensor_available E (ext (poll E 0 w)) \<longrightarrow> k = 100)) \<and>
   fst (fill_slot E i w) = sensor_available E (ext (poll E 0 w)) \<and>
   (i < n \<and> \<not> sensor_available E (ext (poll E 0 w)) \<longrightarrow>
      fill E n i w = (False, snd (fill_slot E i w))) \<and>
   (\<not> millis v - lastSensorRead (glob v) < SENSOR_READ_INTERVAL \<and>
    j < 100 \<and> fill E j 0 (acquisition_start v) = (True, u) \<and>
    \<not> sensor_available E (ext (poll E 0 u)) \<longrightarrow>
      readSensors E v = (False, snd (fill_slot E j u))) \<and>
   count_ev is_check (snd (fill E n i w)) \<le> count_ev is_check w + 100 * (n - i) \<and>
   count_ev is_check (snd (readSensors E v)) \<le> count_ev is_check v + 100 * 100"
proof -
  have rs: "readSensors E v = (False, snd (fill_slot E j u))"
    if "\<not> millis v - lastSensorRead (glob v) < SENSOR_READ_INTERVAL" "j < 100"
      "fill E j 0 (acquisition_start v) = (True, u)" "\<not> sensor_available E (ext (poll E 0 u))"
    using that by (intro readSensors_timeout) (simp_all add: BUFFER_SIZE_def)
  have total: "count_ev is_check (snd (readSensors E v)) \<le> count_ev is_check v + 100 * 100"
    using readSensors_count_check [of E v] by (simp add: BUFFER_SIZE_def)
  show ?thesis
    using fill_slot_rounds [of E w i] fill_slot_fst [of E i w] fill_timeout [of i n E w]
      fill_count_check [of E n i w] rs total
    by blast
qed

theorem poll_budget_per_slot_witness:
  "\<not> sensor_available (sim_env False True 200)
       (ext (poll (sim_env False True 200) 0 (acquisition_start (boot 5000 () :: (unit, real) world)))) \<and>
   \<not> millis (boot 5000 () :: (unit, real) world)
       - lastSensorRead (glob (boot 5000 () :: (unit, real) world)) < SENSOR_READ_INTERVAL \<and>
   (0 :: nat) < 100 \<and>
   fill (sim_env False True 200) 0 0 (acquisition_start (boot 5000 ())) =
     (True, acquisition_start (boot 5000 ())) \<and>
   clock (poll (sim_env False True 200) 0 (acquisition_start (boot 5000 ()))) = 6000 \<and>
   count_ev is_check (snd (fill_slot (sim_env False True 200) 0 (acquisition_start (boot 5000 ())))) = 100 \<and>
   count_ev (\<lambda>ev. ev = EvDelay 10)
     (snd (fill_slot (sim_env False True 200) 0 (acquisition_start (boot 5000 ())))) = 100 \<and>
   \<not> fst (fill_slot (sim_env False True 200) 0 (acquisition_start (boot 5000 ()))) \<and>
   readSensors (sim_env False True 200) (boot 5000 ()) =
     (False, snd (fill_slot (sim_env False True 200) 0 (acquisition_start (boot 5000 ()))))"
proof -
  let ?E = "sim_env False True 200"
  let ?w = "boot 5000 () :: (unit, real) world"
  let ?v = "acquisition_start ?w"
  note gate = gate_boot_5000 [of "()", where ?'t = real]
  have dead: "\<not> sensor_available ?E (ext (poll ?E 0 ?v))" by simp
  have f0: "fill ?E 0 0 ?v = (True, ?v)"
    by (subst fill_unfold) simp
  have v: "clock ?v = 5000" "count_ev is_check ?v = 0" "count_ev (\<lambda>ev. ev = EvDelay 10) ?v = 0"
    by (simp_all add: acquisition_start_def)
  note T = poll_budget_per_slot [where E = ?E and w = ?v and i = 0 and n = 100 and v = ?w
      and j = 0 and u = ?v]
  note T1 = T [THEN conjunct1]
  note T2 = T [THEN conjunct2, THEN conjunct1]
  note T4 = T [THEN conjunct2, THEN conjunct2, THEN conjunct2, THEN conjunct1]
  from T1 obtain k where k: "clock (poll ?E 0 ?v) = clock ?v + 10 * k"
    "count_ev is_check (snd (fill_slot ?E 0 ?v)) = count_ev is_check ?v + k"
    "count_ev (\<lambda>ev. ev = EvDelay 10) (snd (fill_slot ?E 0 ?v))
        = count_ev (\<lambda>ev. ev = EvDelay 10) ?v + k"
    "\<not> sensor_available ?E (ext (poll ?E 0 ?v)) \<longrightarrow> k = 100"
    by (elim exE conjE)
  have k100: "k = 100" using k(4) dead by blast
  have nf: "\<not> fst (fill_slot ?E 0 ?v)" using T2 dead by simp
  have "(0::nat) < 100" by simp
  with T4 gate f0 dead have r: "readSensors ?E ?w = (False, snd (fill_slot ?E 0 ?v))"
    by blast
  show ?thesis
    using dead gate f0 nf r k(1,2,3) by (simp add: k100 v)
qed

text \<open>
  Claim C9. Start from the state at the first pass, where the globals are
  zero-initialised and hence both validity flags are false. As long as no acquisition
  has completed (no run of the estimator is in the trace), both flags are still false
  and every document posted so far reports \<open>heart_rate\<close> 0 and \<open>spo2\<close> 0.
  The witness is the first pass at 1500 ms: too early for an acquisition, due for a
  transmission, which posts one such document.
\<close>

theorem zero_reported_before_first_estimate:
  "count_ev is_estimate (run E n (boot c e)) = 0 \<longrightarrow>
     validHeartRate (glob (run E n (boot c e))) = 0 \<and>
     validSPO2 (glob (run E n (boot c e))) = 0 \<and>
     list_all reports_zero (posted (trace (run E n (boot c e))))"
  by (rule run_keeps_zero) (simp add: zero_globals_def)

theorem zero_reported_before_first_estimate_witness:
  "count_ev is_estimate (run (sim_env True True 200) 1 (boot 1500 ())) = 0 \<and>
   posted (trace (run (sim_env True True 200) 1 (boot 1500 ()))) =
     [[(''device_id'', JInt 1), (''heart_rate'', JInt 0), (''spo2'', JInt 0),
       (''temp_skin'', JFloat 36.5), (''timestamp'', JString ''2025-01-01T00:00:00'')]] \<and>
   list_all reports_zero (posted (trace (run (sim_env True True 200) 1 (boot 1500 ()))))"
  using zero_reported_before_first_estimate [of "sim_env True True 200" 1 1500 "()"]
    first_pass_1500
  by blast

text \<open>
  Claim C10. A transmission tick (lines 267--270 of \<open>loop\<close>) whose gate passes and
  which finds the link down: the timer \<open>lastDataSend\<close> is assigned the time of the pass
  before the link is tested (the event of the assignment comes first, then the link test,
  then \<open>WiFi.begin\<close>), and nothing else among the globals changes, in particular neither
  \<open>lastSensorRead\<close> nor the estimate. Apart from the assignment, every event of the
  tick belongs to the reconnection: no temperature is read, no timestamp is taken, no
  record is built or posted. The tick has used up its interval: a later tick at a time
  \<open>t'\<close> less than \<open>DATA_SEND_INTERVAL\<close> after \<open>t\<close> does nothing.
\<close>

theorem link_down_tick_frame:
  "DATA_SEND_INTERVAL \<le> t - lastDataSend (glob w) \<and> \<not> wifi_status E (ext w) \<Longrightarrow>
   glob (loop_transmit E t w) = (glob w)\<lparr>lastDataSend := t\<rparr> \<and>
   lastDataSend (glob (loop_transmit E t w)) = t \<and>
   lastSensorRead (glob (loop_transmit E t w)) = lastSensorRead (glob w) \<and>
   heartRate (glob (loop_transmit E t w)) = heartRate (glob w) \<and>
   validHeartRate (glob (loop_transmit E t w)) = validHeartRate (glob w) \<and>
   spo2 (glob (loop_transmit E t w)) = spo2 (glob w) \<and>
   validSPO2 (glob (loop_transmit E t w)) = validSPO2 (glob w) \<and>
   take 3 (rev (since w (loop_transmit E t w))) =
     [(clock w, EvTransmission t), (clock w, EvWiFiStatus False), (clock w, EvWiFiBegin 0)] \<and>
   list_all (\<lambda>x. is_wifi_ev (snd x)) (butlast (since w (loop_transmit E t w))) \<and>
   count_ev is_record_ev (loop_transmit E t w) = count_ev is_record_ev w \<and>
   (t' - t < DATA_SEND_INTERVAL \<longrightarrow>
      loop_transmit E t' (loop_transmit E t w) = loop_transmit E t w)"
proof -
  assume h: "DATA_SEND_INTERVAL \<le> t - lastDataSend (glob w) \<and> \<not> wifi_status E (ext w)"
  define w0 where "w0 = emit (EvTransmission t) (upd_glob (\<lambda>g. g\<lparr>lastDataSend := t\<rparr>) w)"
  have eq: "loop_transmit E t w = sendDataToBackend E w0"
    using h by (simp add: loop_transmit_def w0_def)
  have down: "\<not> wifi_status E (ext w0)"
    using h by (simp add: w0_def)
  from send_down_trace [OF down] obtain evs where
    tr: "trace (sendDataToBackend E w0) =
           (evs @ [(clock w, EvWiFiBegin 0), (clock w, EvWiFiStatus False),
                   (clock w, EvTransmission t)]) @ trace w"
    and evs: "list_all (\<lambda>x. is_wifi_ev (snd x)) evs"
    by (auto simp: w0_def)
  have si: "since w (loop_transmit E t w) =
      evs @ [(clock w, EvWiFiBegin 0), (clock w, EvWiFiStatus False), (clock w, EvTransmission t)]"
    unfolding eq by (rule since_append [OF tr])
  have g: "glob (loop_transmit E t w) = (glob w)\<lparr>lastDataSend := t\<rparr>"
    unfolding eq using send_down_steps [OF down] by (simp add: steps_def w0_def)
  have "count_ev is_record_ev (sendDataToBackend E w0) = count_ev is_record_ev w0"
    by (rule steps_count [OF send_down_steps [OF down]]) (auto elim: is_wifi_ev.elims)
  then have cnt: "count_ev is_record_ev (loop_transmit E t w) = count_ev is_record_ev w"
    by (simp add: eq w0_def)
  have again: "loop_transmit E t' (loop_transmit E t w) = loop_transmit E t w"
    if "t' - t < DATA_SEND_INTERVAL"
    using that by (subst loop_transmit_def) (simp add: g)
  have tk: "take 3 (rev (since w (loop_transmit E t w))) =
     [(clock w, EvTransmission t), (clock w, EvWiFiStatus False), (clock w, EvWiFiBegin 0)]"
    unfolding si by simp
  have bl: "list_all (\<lambda>x. is_wifi_ev (snd x)) (butlast (since w (loop_transmit E t w)))"
    unfolding si using evs by (simp add: butlast_append)
  show ?thesis
    using g cnt again tk bl by simp
qed

theorem link_down_tick_frame_witness:
  "DATA_SEND_INTERVAL \<le> 5000 - lastDataSend (glob (boot 5000 () :: (unit, real) world)) \<and>
   \<not> wifi_status (sim_env True False 200) (ext (boot 5000 () :: (unit, real) world)) \<and>
   glob (loop_transmit (sim_env True False 200) 5000 (boot 5000 ())) =
     zero_globals\<lparr>lastDataSend := 5000\<rparr> \<and>
   count_ev is_record_ev (loop_transmit (sim_env True False 200) 5000 (boot 5000 ())) = 0 \<and>
   (5900 :: u32) - 5000 < DATA_SEND_INTERVAL \<and>
   loop_transmit (sim_env True False 200) 5900
       (loop_transmit (sim_env True False 200) 5000 (boot 5000 ())) =
     loop_transmit (sim_env True False 200) 5000 (boot 5000 ())"
proof -
  let ?E = "sim_env True False 200"
  let ?w = "boot 5000 () :: (unit, real) world"
  have h: "DATA_SEND_INTERVAL \<le> 5000 - lastDataSend (glob ?w) \<and> \<not> wifi_status ?E (ext ?w)"
    by (simp add: DATA_SEND_INTERVAL_def zero_globals_def)
  have k: "(5900 :: u32) - 5000 < DATA_SEND_INTERVAL"
    by (simp add: DATA_SEND_INTERVAL_def)
  from link_down_tick_frame [OF h, of 5900] k
  have "glob (loop_transmit ?E 5000 ?w) = (glob ?w)\<lparr>lastDataSend := 5000\<rparr>"
    and "count_ev is_record_ev (loop_transmit ?E 5000 ?w) = count_ev is_record_ev ?w"
    and "loop_transmit ?E 5900 (loop_transmit ?E 5000 ?w) = loop_transmit ?E 5000 ?w"
    by blast+
  then show ?thesis using h k by simp
qed

end
